theory Spec2Isabelle
  imports Main "HOL-Library.Sublist"
begin

section \<open>The Junos device handler of ncclient\<close>

text \<open>
  A shallow embedding of \<^verbatim>\<open>ncclient/devices/junos.py\<close>: the raw-reply hook
  \<^verbatim>\<open>handle_raw_dispatch\<close>, the schema-reply transform \<^verbatim>\<open>fix_get_schema_reply\<close>
  and the parser selection \<^verbatim>\<open>get_xml_parser\<close>.  Python strings are \<open>string\<close>;
  the three regular expressions of the handler are run by a backtracking matcher for the
  fragment of Python's \<^verbatim>\<open>re\<close> syntax they use; XML documents are trees; the lxml
  parser and serialiser are parameters of the handler.
\<close>

subsection \<open>Python's substring test\<close>

text \<open>
  \<^verbatim>\<open>sub in s\<close> on strings is \<open>sublist sub s\<close>: \<open>sub\<close> occurs in \<open>s\<close> as a
  contiguous run.
\<close>

subsection \<open>The regular expressions of the handler\<close>

text \<open>
  The handler uses three patterns, all compiled with \<^verbatim>\<open>re.M | re.S\<close> or no flag:
  \<^verbatim>\<open><ok/>\<close>, \<^verbatim>\<open><rpc-reply>.*?</rpc-reply>.*</hello>?\<close> and
  \<^verbatim>\<open><rpc-error>.*?</rpc-error>\<close>.  They are sequences of single characters,
  \<^verbatim>\<open>.\<close> (which under \<^verbatim>\<open>re.S\<close> matches every character, the newline included),
  the greedy and the lazy star and the greedy option of one character.  \<^verbatim>\<open>re.M\<close>
  changes only the anchors, and the patterns have none.
\<close>

datatype atom = Chr char | Dot

datatype ritem = One atom | Star atom | StarLazy atom | Opt atom

type_synonym regex = "ritem list"

fun amatch :: "atom \<Rightarrow> char \<Rightarrow> bool" where
  "amatch (Chr a) c = (a = c)"
| "amatch Dot c = True"

definition lit :: "string \<Rightarrow> regex" where
  "lit s = map (\<lambda>c. One (Chr c)) s"

text \<open>
  \<open>rmatch p s\<close> matches \<open>p\<close> at the start of \<open>s\<close> the way a backtracking engine does
  and returns what is left of \<open>s\<close> after the match it prefers: a greedy item first tries
  to take a character, a lazy one first tries to go on without.
\<close>

fun rmatch :: "regex \<Rightarrow> string \<Rightarrow> string option" where
  "rmatch [] s = Some s"
| "rmatch (One a # r) [] = None"
| "rmatch (One a # r) (c # s) = (if amatch a c then rmatch r s else None)"
| "rmatch (Opt a # r) [] = rmatch r []"
| "rmatch (Opt a # r) (c # s) =
     (if amatch a c
      then (case rmatch r s of Some t \<Rightarrow> Some t | None \<Rightarrow> rmatch r (c # s))
      else rmatch r (c # s))"
| "rmatch (Star a # r) [] = rmatch r []"
| "rmatch (Star a # r) (c # s) =
     (if amatch a c
      then (case rmatch (Star a # r) s of Some t \<Rightarrow> Some t | None \<Rightarrow> rmatch r (c # s))
      else rmatch r (c # s))"
| "rmatch (StarLazy a # r) [] = rmatch r []"
| "rmatch (StarLazy a # r) (c # s) =
     (case rmatch r (c # s) of
        Some t \<Rightarrow> Some t
      | None \<Rightarrow> if amatch a c then rmatch (StarLazy a # r) s else None)"

text \<open>
  \<^verbatim>\<open>re.search\<close>: the leftmost position where the pattern matches.  The result is the
  text before the match, the match and the text after it.
\<close>

fun re_search :: "regex \<Rightarrow> string \<Rightarrow> (string \<times> string \<times> string) option" where
  "re_search p s =
     (case rmatch p s of
        Some t \<Rightarrow> Some ([], take (length s - length t) s, t)
      | None \<Rightarrow>
          (case s of
             [] \<Rightarrow> None
           | c # s' \<Rightarrow> map_option (\<lambda>(b, m, a). (c # b, m, a)) (re_search p s')))"

declare re_search.simps [simp del]

lemma rmatch_length: "rmatch p s = Some t \<Longrightarrow> length t \<le> length s"
proof (induction p s arbitrary: t rule: rmatch.induct)
  case (5 a r c s)
  then show ?case by (fastforce split: if_splits option.splits)
next
  case (7 a r c s)
  then show ?case by (fastforce split: if_splits option.splits)
next
  case (9 a r c s)
  then show ?case by (fastforce split: if_splits option.splits)
qed (auto split: if_splits)

lemma re_search_length:
  "re_search p s = Some (b, m, a) \<Longrightarrow> length b + length m + length a = length s"
proof (induction p s arbitrary: b m a rule: re_search.induct)
  case (1 p s)
  show ?case
  proof (cases "rmatch p s")
    case (Some t)
    with "1.prems" rmatch_length [OF Some] show ?thesis
      by (auto simp: re_search.simps [of p s])
  next
    case None
    with "1.prems" obtain c s' where s: "s = c # s'"
      by (cases s) (auto simp: re_search.simps [of p "[]"])
    with None "1.prems" obtain b' where
      "re_search p s' = Some (b', m, a)" and "b = c # b'"
      by (auto simp: re_search.simps [of p "c # s'"] split: option.splits)
    with "1.IH" [OF None s] s show ?thesis by simp
  qed
qed

text \<open>
  \<^verbatim>\<open>re.findall\<close> and \<^verbatim>\<open>re.sub\<close> walk the non-overlapping matches from left to
  right, each search starting where the last match ended.  After an empty match the scan
  moves one character on; no pattern of the handler matches the empty string.
\<close>

function re_findall :: "regex \<Rightarrow> string \<Rightarrow> string list" where
  "re_findall p s =
     (case re_search p s of
        None \<Rightarrow> []
      | Some (b, m, a) \<Rightarrow>
          if m = [] then (case a of [] \<Rightarrow> [m] | c # a' \<Rightarrow> m # re_findall p a')
          else m # re_findall p a)"
  by pat_completeness auto
termination
proof (relation "measure (\<lambda>(p, s). length s)")
  show "wf (measure (\<lambda>(p, s). length s))" by simp
next
  fix p s x2 b y m a c a'
  assume "re_search p s = Some x2" "(b, y) = x2" "(m, a) = y" "a = c # a'"
  then have "re_search p s = Some (b, m, c # a')" by simp
  from re_search_length [OF this]
  show "((p, a'), (p, s)) \<in> measure (\<lambda>(p, s). length s)" by simp
next
  fix p s x2 b y m a
  assume "re_search p s = Some x2" "(b, y) = x2" "(m, a) = y" "m \<noteq> []"
  then have "re_search p s = Some (b, m, a)" and "\<exists>x xs. m = x # xs"
    by (simp_all add: neq_Nil_conv)
  with re_search_length [of p s b m a]
  show "((p, a), (p, s)) \<in> measure (\<lambda>(p, s). length s)" by auto
qed

function re_sub :: "regex \<Rightarrow> string \<Rightarrow> string \<Rightarrow> string" where
  "re_sub p repl s =
     (case re_search p s of
        None \<Rightarrow> s
      | Some (b, m, a) \<Rightarrow>
          if m = [] then (case a of [] \<Rightarrow> b @ repl | c # a' \<Rightarrow> b @ repl @ c # re_sub p repl a')
          else b @ repl @ re_sub p repl a)"
  by pat_completeness auto
termination
proof (relation "measure (\<lambda>(p, repl, s). length s)")
  show "wf (measure (\<lambda>(p, repl, s). length s))" by simp
next
  fix p and repl :: string and s x2 b y m a c a'
  assume "re_search p s = Some x2" "(b, y) = x2" "(m, a) = y" "a = c # a'"
  then have "re_search p s = Some (b, m, c # a')" by simp
  from re_search_length [OF this]
  show "((p, repl, a'), (p, repl, s)) \<in> measure (\<lambda>(p, repl, s). length s)" by simp
next
  fix p and repl :: string and s x2 b y m a
  assume "re_search p s = Some x2" "(b, y) = x2" "(m, a) = y" "m \<noteq> []"
  then have "re_search p s = Some (b, m, a)" and "\<exists>x xs. m = x # xs"
    by (simp_all add: neq_Nil_conv)
  with re_search_length [of p s b m a]
  show "((p, repl, a), (p, repl, s)) \<in> measure (\<lambda>(p, repl, s). length s)" by auto
qed

declare re_findall.simps [simp del] re_sub.simps [simp del]

subsection \<open>XML documents\<close>

text \<open>
  An lxml tree: an element has a tag (a namespace, absent or a URI, and a local name),
  attributes and children; character data, comments and processing instructions are
  leaves.  lxml's \<^verbatim>\<open>QName(el).namespace\<close> is \<open>namespace (tag el)\<close>, \<^verbatim>\<open>None\<close> when
  the element has no namespace.
\<close>

datatype qname = QName (namespace: "string option") (localname: string)

datatype xml =
    Element qname "(qname \<times> string) list" "xml list"
  | Text string
  | Comment string
  | PI string string

text \<open>
  Modelled from the spec: the constants \<^verbatim>\<open>BASE_NS_1_0\<close> and
  \<^verbatim>\<open>NETCONF_MONITORING_NS\<close> of \<^verbatim>\<open>ncclient.xml_\<close> are not in the sources at hand.
  The spec calls them the standard NETCONF base namespace and the monitoring namespace:
  the URIs of RFC 6241 and RFC 6022.  The first is also written out in the stylesheet
  of \<^verbatim>\<open>handle_raw_dispatch\<close>.
\<close>

definition BASE_NS_1_0 :: string where
  "BASE_NS_1_0 = ''urn:ietf:params:xml:ns:netconf:base:1.0''"

definition NETCONF_MONITORING_NS :: string where
  "NETCONF_MONITORING_NS = ''urn:ietf:params:xml:ns:yang:ietf-netconf-monitoring''"

subsection \<open>The stylesheet that adds the namespace\<close>

text \<open>
  The stylesheet \<^verbatim>\<open>add_ns\<close> has one template, for \<^verbatim>\<open>*\<close>: it builds an element with
  the local name of the matched one in the base namespace and applies the templates to
  \<^verbatim>\<open>@*|node()\<close>, the attributes and then the children.  Nothing in the stylesheet
  matches the other nodes, so XSLT's built-in rules apply: an attribute and a text node
  are copied as their string value, a comment and a processing instruction give nothing.
  Adjacent text nodes of a result tree are one node, and an empty one is no node.
\<close>

fun coalesce :: "xml list \<Rightarrow> xml list" where
  "coalesce [] = []"
| "coalesce (Text s # ns) =
     (if s = [] then coalesce ns
      else (case coalesce ns of
              Text t # ms \<Rightarrow> Text (s @ t) # ms
            | ms \<Rightarrow> Text s # ms))"
| "coalesce (n # ns) = n # coalesce ns"

fun apply_templates :: "xml \<Rightarrow> xml list" where
  "apply_templates (Element q atts ch) =
     [Element (QName (Some BASE_NS_1_0) (localname q)) []
        (coalesce (map (\<lambda>(k, v). Text v) atts @ concat (map apply_templates ch)))]"
| "apply_templates (Text s) = [Text s]"
| "apply_templates (Comment s) = []"
| "apply_templates (PI t s) = []"

text \<open>
  \<^verbatim>\<open>xslt(doc)\<close>: the built-in rule for the document node applies the templates to its
  children, here the root element of \<open>doc\<close>.
\<close>

definition xslt_add_ns :: "xml \<Rightarrow> xml list" where
  "xslt_add_ns doc = coalesce (apply_templates doc)"


subsection \<open>The raw-reply hook\<close>

text \<open>
  Modelled from the spec: \<^verbatim>\<open>RPCError\<close> of \<^verbatim>\<open>ncclient.operations.rpc\<close> is not in the
  sources at hand.  The spec has an aggregate error object that carries the error
  document and the ordered sequence of individual errors; a single error is built from
  its document alone.  The model keeps the two arguments of the constructor as they are
  passed: \<^verbatim>\<open>RPCError(raw)\<close> is \<open>RPCError raw None\<close>, \<^verbatim>\<open>RPCError(raw, errs)\<close> is
  \<open>RPCError raw (Some errs)\<close>.
\<close>

datatype rpc_error = RPCError (error_raw: xml) (error_errs: "rpc_error list option")

text \<open>
  What the hook returns: a string, an \<^verbatim>\<open>RPCError\<close>, \<^verbatim>\<open>None\<close> or \<^verbatim>\<open>False\<close>.
  What it can raise: lxml's \<^verbatim>\<open>XMLSyntaxError\<close>, from \<^verbatim>\<open>etree.XML\<close> or from
  \<^verbatim>\<open>to_ele\<close>.
\<close>

datatype pyval = PyStr string | PyErr rpc_error | PyNone | PyFalse

datatype exn = XMLSyntaxError

text \<open>
  The functions of lxml are parameters: \<open>XML\<close> is \<^verbatim>\<open>etree.XML\<close> (\<open>None\<close> when it
  raises \<^verbatim>\<open>XMLSyntaxError\<close>) and \<open>tostring\<close> is \<^verbatim>\<open>etree.tostring\<close> on a result
  tree.

  Modelled from the spec: \<^verbatim>\<open>to_ele\<close> of \<^verbatim>\<open>ncclient.xml_\<close> is not in the sources at
  hand.  The spec has the concatenation of the fragments in the envelope parsed as the
  aggregate error document; the model parses it with \<open>XML\<close>, and a text that does not
  parse raises.

  The loop over \<^verbatim>\<open>errs\<close>, with \<^verbatim>\<open>err_list\<close> as its accumulator.
\<close>

fun err_loop ::
  "(string \<Rightarrow> xml option) \<Rightarrow> (xml list \<Rightarrow> string) \<Rightarrow> rpc_error list \<Rightarrow> string list
     \<Rightarrow> exn + rpc_error list" where
  "err_loop XML tostring err_list [] = Inr err_list"
| "err_loop XML tostring err_list (err # errs) =
     (case XML err of
        None \<Rightarrow> Inl XMLSyntaxError
      | Some doc \<Rightarrow>
          (case XML (tostring (xslt_add_ns doc)) of
             None \<Rightarrow> Inl XMLSyntaxError
           | Some transformed_xml \<Rightarrow>
               err_loop XML tostring (err_list @ [RPCError transformed_xml None]) errs))"

definition newline :: char where
  "newline = CHR 0x0A"

definition ok_pattern :: regex where
  "ok_pattern = lit ''<ok/>''"

definition reply_pattern :: regex where
  "reply_pattern =
     lit ''<rpc-reply>'' @ [StarLazy Dot] @ lit ''</rpc-reply>'' @ [Star Dot]
       @ lit ''</hello'' @ [Opt (Chr CHR ''>'')]"

definition error_pattern :: regex where
  "error_pattern = lit ''<rpc-error>'' @ [StarLazy Dot] @ lit ''</rpc-error>''"

definition handle_raw_dispatch ::
  "(string \<Rightarrow> xml option) \<Rightarrow> (xml list \<Rightarrow> string) \<Rightarrow> string \<Rightarrow> exn + pyval" where
  "handle_raw_dispatch XML tostring raw =
     (if sublist ''routing-engine'' raw then
        Inr (PyStr (re_sub ok_pattern (''</routing-engine>'' @ [newline] @ ''<ok/>'') raw))
      else if re_search reply_pattern raw \<noteq> None then
        (let errs = re_findall error_pattern raw in
         if errs \<noteq> [] then
           (case err_loop XML tostring [] errs of
              Inl e \<Rightarrow> Inl e
            | Inr err_list \<Rightarrow>
                (case XML (''<rpc-reply>'' @ concat errs @ ''</rpc-reply>'') of
                   None \<Rightarrow> Inl XMLSyntaxError
                 | Some ele \<Rightarrow> Inr (PyErr (RPCError ele (Some err_list)))))
         else Inr PyNone)
      else Inr PyFalse)"

subsection \<open>The schema-reply transform\<close>

text \<open>
  \<^verbatim>\<open>root.xpath('/nc:rpc-reply/*[local-name()="data"]', namespaces={'nc': BASE_NS_1_0})\<close>,
  where \<open>root\<close> is the root element of its document: when the root is \<^verbatim>\<open>rpc-reply\<close>
  in the base namespace, its child elements with the local name \<^verbatim>\<open>data\<close>, in document
  order.  The elements found are objects of the tree, so the model returns their
  positions among the children of the root.
\<close>

fun is_data_elem :: "xml \<Rightarrow> bool" where
  "is_data_elem (Element q atts ch) = (localname q = ''data'')"
| "is_data_elem n = False"

fun xpath_data_elems :: "xml \<Rightarrow> nat list" where
  "xpath_data_elems (Element q atts ch) =
     (if q = QName (Some BASE_NS_1_0) ''rpc-reply''
      then filter (\<lambda>i. is_data_elem (ch ! i)) [0..<length ch]
      else [])"
| "xpath_data_elems n = []"

fun child :: "xml \<Rightarrow> nat \<Rightarrow> xml" where
  "child (Element q atts ch) i = ch ! i"
| "child n i = n"

fun set_child :: "xml \<Rightarrow> nat \<Rightarrow> xml \<Rightarrow> xml" where
  "set_child (Element q atts ch) i n = Element q atts (ch[i := n])"
| "set_child r i n = r"

text \<open>\<^verbatim>\<open>QName(el).namespace\<close> of an element.\<close>

fun qname_namespace :: "xml \<Rightarrow> string option" where
  "qname_namespace (Element q atts ch) = namespace q"
| "qname_namespace n = None"

definition rfc_warning :: string where
  "rfc_warning =
     ''The device seems to run non-rfc compliant netconf. You may want to configure: ''
       @ [CHR 0x27] @ ''set system services netconf rfc-compliant'' @ [CHR 0x27]"

text \<open>
  \<^verbatim>\<open>fix_get_schema_reply\<close> changes the tree in place and returns nothing; the model
  returns the tree after the call and the warnings the call has logged.
  \<^verbatim>\<open>replace_namespace\<close> (of \<^verbatim>\<open>ncclient.xml_\<close>, not in the sources at hand) is the
  parameter \<open>rn\<close>: \<open>rn el old_ns new_ns\<close> is the element \<open>el\<close> after the call.
\<close>

definition fix_get_schema_reply ::
  "(xml \<Rightarrow> string option \<Rightarrow> string \<Rightarrow> xml) \<Rightarrow> xml \<Rightarrow> xml \<times> string list" where
  "fix_get_schema_reply rn root =
     (let data_elems = xpath_data_elems root in
      if length data_elems \<noteq> 1 then (root, [])
      else
        (let i = data_elems ! 0;
             data_el = child root i;
             ns = qname_namespace data_el
         in if ns = Some BASE_NS_1_0 then
              (set_child root i (rn data_el (Some BASE_NS_1_0) NETCONF_MONITORING_NS),
               [rfc_warning])
            else if ns = None then
              (set_child root i (rn data_el None NETCONF_MONITORING_NS), [])
            else (root, [])))"

text \<open>
  What the transform needs of \<^verbatim>\<open>replace_namespace\<close>: called on an element with
  the namespace of that element as \<^verbatim>\<open>old_ns\<close>, it leaves an element of the same local
  name in the namespace \<^verbatim>\<open>new_ns\<close>.
\<close>

definition replaces_namespace :: "(xml \<Rightarrow> string option \<Rightarrow> string \<Rightarrow> xml) \<Rightarrow> bool" where
  "replaces_namespace rn =
     (\<forall>q atts ch new_ns. \<exists>atts' ch'.
        rn (Element q atts ch) (namespace q) new_ns
          = Element (QName (Some new_ns) (localname q)) atts' ch')"

text \<open>
  Modelled from the spec: \<^verbatim>\<open>replace_namespace\<close> of \<^verbatim>\<open>ncclient.xml_\<close> is not in the
  sources at hand.  The spec calls it a pure namespace-rewriting utility that rewrites
  the element from the old namespace to the new one; the model substitutes \<open>new_ns\<close> for
  \<open>old_ns\<close> in the tag of the element and of every element below it.
\<close>

fun replace_namespace :: "xml \<Rightarrow> string option \<Rightarrow> string \<Rightarrow> xml" where
  "replace_namespace (Element q atts ch) old_ns new_ns =
     Element (if namespace q = old_ns then QName (Some new_ns) (localname q) else q) atts
       (map (\<lambda>n. replace_namespace n old_ns new_ns) ch)"
| "replace_namespace n old_ns new_ns = n"

subsection \<open>The parser selection\<close>

text \<open>
  Modelled from the spec: the session's \<^verbatim>\<open>get_listener_instance\<close>,
  \<^verbatim>\<open>remove_listener\<close> and \<^verbatim>\<open>add_listener\<close> (of \<^verbatim>\<open>ncclient.transport.session\<close>) are
  not in the sources at hand.  The spec has a session offer listener registration and
  removal, the removal of a listener that is not attached being a no-op.  A session
  holds listener objects; the model keeps the class of each attached object, one entry
  per object.  \<open>get_listener_instance\<close> returns an attached object of the class, if
  there is one.
\<close>

datatype listener = SAXParserHandler | OtherListener string

record session =
  listeners :: "listener list"

definition get_listener_instance :: "session \<Rightarrow> listener \<Rightarrow> listener option" where
  "get_listener_instance s cls = find (\<lambda>l. l = cls) (listeners s)"

definition remove_listener :: "session \<Rightarrow> listener \<Rightarrow> session" where
  "remove_listener s l = s\<lparr>listeners := remove1 l (listeners s)\<rparr>"

definition add_listener :: "session \<Rightarrow> listener \<Rightarrow> session" where
  "add_listener s l = s\<lparr>listeners := listeners s @ [l]\<rparr>"

datatype xml_parser = DefaultXMLParser | JunosXMLParser

text \<open>
  \<^verbatim>\<open>device_params\<close> is a dictionary; of the value under \<^verbatim>\<open>use_filter\<close> only its
  truth value is used.
\<close>

definition get_xml_parser :: "(string \<rightharpoonup> bool) \<Rightarrow> session \<Rightarrow> xml_parser \<times> session" where
  "get_xml_parser device_params s =
     (if \<not> (case device_params ''use_filter'' of None \<Rightarrow> False | Some v \<Rightarrow> v)
      then (DefaultXMLParser, s)
      else
        (let s1 = (case get_listener_instance s SAXParserHandler of
                     Some l \<Rightarrow> remove_listener s l
                   | None \<Rightarrow> s)
         in (JunosXMLParser, add_listener s1 SAXParserHandler)))"

subsection \<open>Joining pieces\<close>

text \<open>Python's \<^verbatim>\<open>sep.join(pieces)\<close>, used to state what a substitution does.\<close>

fun join :: "string \<Rightarrow> string list \<Rightarrow> string" where
  "join sep [] = []"
| "join sep [x] = x"
| "join sep (x # y # ys) = x @ sep @ join sep (y # ys)"

subsection \<open>A reply made of fragments\<close>

text \<open>
  The reply the spec has in mind for the extraction: \<^verbatim>\<open><rpc-error>...</rpc-error>\<close>
  fragments with text before, between and after them.  \<open>reply_with_fragments g rest\<close> is
  the text \<open>g\<close> followed by, for each pair of \<open>rest\<close>, the fragment around its body and
  the text after that fragment.
\<close>

definition fragment :: "string \<Rightarrow> string" where
  "fragment body = ''<rpc-error>'' @ body @ ''</rpc-error>''"

fun reply_with_fragments :: "string \<Rightarrow> (string \<times> string) list \<Rightarrow> string" where
  "reply_with_fragments g [] = g"
| "reply_with_fragments g ((body, g') # rest) = g @ fragment body @ reply_with_fragments g' rest"

section \<open>A parser and a serialiser to run the hook on\<close>

text \<open>
  A model of lxml's \<^verbatim>\<open>etree.XML\<close> and \<^verbatim>\<open>etree.tostring\<close>, to run the hook on
  concrete replies.  It covers documents made of start tags, end tags and empty-element
  tags with ASCII names, attributes, namespace declarations, character data and the five
  predefined entities; \<open>None\<close> stands for \<^verbatim>\<open>XMLSyntaxError\<close>.  Comments, processing
  instructions, the XML declaration, CDATA sections, document type declarations and
  character references are not covered: the model rejects them.  The statements about
  all replies do not depend on this model; they hold for every parser and serialiser.
\<close>

definition is_space :: "char \<Rightarrow> bool" where
  "is_space c = (c = CHR '' '' \<or> c = CHR 0x09 \<or> c = CHR 0x0A \<or> c = CHR 0x0D)"

definition is_name_start :: "char \<Rightarrow> bool" where
  "is_name_start c =
     (let n = (of_char c :: nat)
      in (65 \<le> n \<and> n \<le> 90) \<or> (97 \<le> n \<and> n \<le> 122) \<or> c = CHR ''_'' \<or> c = CHR '':'')"

definition is_name_char :: "char \<Rightarrow> bool" where
  "is_name_char c =
     (let n = (of_char c :: nat)
      in is_name_start c \<or> (48 \<le> n \<and> n \<le> 57) \<or> c = CHR ''-'' \<or> c = CHR ''.'')"

text \<open>The five predefined entities; any other use of \<^verbatim>\<open>&\<close> is rejected.\<close>

fun unescape :: "string \<Rightarrow> string option" where
  "unescape [] = Some []"
| "unescape (c # s) =
     (if c = CHR ''&'' then
        (if prefix ''lt;'' s then map_option ((#) CHR ''<'') (unescape (drop 3 s))
         else if prefix ''gt;'' s then map_option ((#) CHR ''>'') (unescape (drop 3 s))
         else if prefix ''amp;'' s then map_option ((#) CHR ''&'') (unescape (drop 4 s))
         else if prefix ''quot;'' s then map_option ((#) CHR 0x22) (unescape (drop 5 s))
         else if prefix ''apos;'' s then map_option ((#) CHR 0x27) (unescape (drop 5 s))
         else None)
      else map_option ((#) c) (unescape s))"

text \<open>
  Before anything else a parser reads every line end, \<^verbatim>\<open>CR LF\<close> or \<^verbatim>\<open>CR\<close> alone, as
  \<^verbatim>\<open>LF\<close>; in an attribute value it reads a tab and a line end as a space.
\<close>

fun normalize_eol :: "string \<Rightarrow> string" where
  "normalize_eol [] = []"
| "normalize_eol [c] = [if c = CHR 0x0D then CHR 0x0A else c]"
| "normalize_eol (c # d # s) =
     (if c = CHR 0x0D \<and> d = CHR 0x0A then CHR 0x0A # normalize_eol s
      else (if c = CHR 0x0D then CHR 0x0A else c) # normalize_eol (d # s))"

definition normalize_value :: "string \<Rightarrow> string" where
  "normalize_value v = map (\<lambda>c. if is_space c then CHR '' '' else c) v"

text \<open>The tokens of a document: start tags, empty-element tags, end tags, character data.\<close>

datatype token =
    TStart string "(string \<times> string) list"
  | TEmpty string "(string \<times> string) list"
  | TEnd string
  | TText string

text \<open>One attribute, \<^verbatim>\<open>name = "value"\<close>, at the start of \<open>s\<close>.\<close>

definition lex_attr :: "string \<Rightarrow> ((string \<times> string) \<times> string) option" where
  "lex_attr s =
     (case dropWhile is_space (dropWhile is_name_char s) of
        [] \<Rightarrow> None
      | e # s3 \<Rightarrow>
          if e \<noteq> CHR ''='' then None
          else
            (case dropWhile is_space s3 of
               [] \<Rightarrow> None
             | q # s4 \<Rightarrow>
                 if q \<noteq> CHR 0x22 \<and> q \<noteq> CHR 0x27 then None
                 else
                   (case dropWhile (\<lambda>x. x \<noteq> q) s4 of
                      [] \<Rightarrow> None
                    | q' # s6 \<Rightarrow>
                        if CHR ''<'' \<in> set (takeWhile (\<lambda>x. x \<noteq> q) s4) then None
                        else map_option (\<lambda>v. ((takeWhile is_name_char s, v), s6))
                               (unescape (normalize_value (takeWhile (\<lambda>x. x \<noteq> q) s4))))))"

lemma lex_attr_length: "lex_attr s = Some (a, r) \<Longrightarrow> length r < length s"
proof -
  assume a: "lex_attr s = Some (a, r)"
  have le: "\<And>P xs. length (dropWhile P xs) \<le> length xs" by (rule length_dropWhile_le)
  from a obtain e s3 where 1: "dropWhile is_space (dropWhile is_name_char s) = e # s3"
    by (auto simp: lex_attr_def split: list.splits)
  with a obtain q s4 where 2: "dropWhile is_space s3 = q # s4"
    by (auto simp: lex_attr_def split: list.splits if_splits)
  with a 1 obtain q' where 3: "dropWhile (\<lambda>x. x \<noteq> q) s4 = q' # r"
    by (auto simp: lex_attr_def split: list.splits if_splits)
  from 3 le [of "\<lambda>x. x \<noteq> q" s4] have "length r < length s4" by simp
  also from 2 le [of is_space s3] have "length s4 < length s3" by simp
  also from 1 le [of is_space "dropWhile is_name_char s"] le [of is_name_char s]
  have "length s3 < length s" by simp
  finally show ?thesis .
qed

text \<open>
  The attributes of a start tag, up to its \<^verbatim>\<open>>\<close> or \<^verbatim>\<open>/>\<close>: the attributes, whether the
  tag is an empty-element tag, and the text after the tag.
\<close>

function lex_attrs :: "string \<Rightarrow> ((string \<times> string) list \<times> bool \<times> string) option" where
  "lex_attrs s =
     (case dropWhile is_space s of
        [] \<Rightarrow> None
      | c # r \<Rightarrow>
          if c = CHR ''>'' then Some ([], False, r)
          else if c = CHR ''/'' then
            (case r of [] \<Rightarrow> None | d # r' \<Rightarrow> if d = CHR ''>'' then Some ([], True, r') else None)
          else if is_name_start c \<and> dropWhile is_space s \<noteq> s then
            (case lex_attr (c # r) of
               None \<Rightarrow> None
             | Some (a, s') \<Rightarrow>
                 (case lex_attrs s' of
                    None \<Rightarrow> None
                  | Some (as, e, rest) \<Rightarrow> Some (a # as, e, rest)))
          else None)"
  by pat_completeness auto
termination
proof (relation "measure length")
  show "wf (measure length)" by simp
next
  fix s c r x2 a s'
  assume a: "dropWhile is_space s = c # r" "lex_attr (c # r) = Some x2" "(a, s') = x2"
  then have "length s' < length (c # r)" using lex_attr_length [of "c # r" a s'] by simp
  also have "\<dots> \<le> length s" using length_dropWhile_le [of is_space s] a(1) by simp
  finally show "(s', s) \<in> measure length" by simp
qed

declare lex_attrs.simps [simp del]

lemma lex_attrs_length: "lex_attrs s = Some (as, e, r) \<Longrightarrow> length r < length s"
proof (induction s arbitrary: as e r rule: lex_attrs.induct)
  case (1 s)
  have le: "length (dropWhile is_space s) \<le> length s" by (rule length_dropWhile_le)
  from "1.prems" obtain c r0 where d: "dropWhile is_space s = c # r0"
    by (subst (asm) lex_attrs.simps) (auto split: list.splits)
  consider (gt) "c = CHR ''>''" | (sl) "c \<noteq> CHR ''>''" "c = CHR ''/''"
    | (at) "c \<noteq> CHR ''>''" "c \<noteq> CHR ''/''" by blast
  then show ?case
  proof cases
    case gt
    with "1.prems" d have "r = r0" by (subst (asm) lex_attrs.simps) simp
    with d le show ?thesis by simp
  next
    case sl
    with "1.prems" d obtain x where "r0 = x # r"
      by (subst (asm) lex_attrs.simps) (auto split: list.splits if_splits)
    with d le show ?thesis by simp
  next
    case at
    with "1.prems" d obtain a s' as' where
      n: "is_name_start c \<and> dropWhile is_space s \<noteq> s"
      and l: "lex_attr (c # r0) = Some (a, s')" and r: "lex_attrs s' = Some (as', e, r)"
      by (subst (asm) lex_attrs.simps) (auto split: list.splits if_splits option.splits)
    from "1.IH" [OF d _ _ n l refl r] at have "length r < length s'" by simp
    also from lex_attr_length [OF l] have "length s' < length (c # r0)" .
    also from d le have "length (c # r0) \<le> length s" by simp
    finally show ?thesis .
  qed
qed

text \<open>
  The tokens of a text.  A \<^verbatim>\<open><\<close> opens an end tag or a start tag; everything up
  to the next \<^verbatim>\<open><\<close> is character data, in which \<^verbatim>\<open>]]>\<close> may not occur.
\<close>

function lex :: "string \<Rightarrow> token list option" where
  "lex [] = Some []"
| "lex (c # s) =
     (if c = CHR ''<'' then
        (case s of
           [] \<Rightarrow> None
         | d # r \<Rightarrow>
             if d = CHR ''/'' then
               (case dropWhile is_space (dropWhile is_name_char r) of
                  [] \<Rightarrow> None
                | g # r2 \<Rightarrow>
                    if g = CHR ''>'' \<and> r \<noteq> [] \<and> is_name_start (hd r)
                    then map_option ((#) (TEnd (takeWhile is_name_char r))) (lex r2)
                    else None)
             else if is_name_start d then
               (case lex_attrs (dropWhile is_name_char r) of
                  None \<Rightarrow> None
                | Some (as, e, rest) \<Rightarrow>
                    map_option
                      ((#) ((if e then TEmpty else TStart) (d # takeWhile is_name_char r) as))
                      (lex rest))
             else None)
      else
        (if sublist '']]>'' (c # takeWhile (\<lambda>x. x \<noteq> CHR ''<'') s) then None
         else
           (case unescape (c # takeWhile (\<lambda>x. x \<noteq> CHR ''<'') s) of
              None \<Rightarrow> None
            | Some t \<Rightarrow>
                map_option ((#) (TText t)) (lex (dropWhile (\<lambda>x. x \<noteq> CHR ''<'') s)))))"
  by pat_completeness auto
termination
proof (relation "measure length")
  show "wf (measure length)" by simp
next
  fix c s d r g r2
  assume "s = d # r" "dropWhile is_space (dropWhile is_name_char r) = g # r2"
  with length_dropWhile_le [of is_space "dropWhile is_name_char r"]
    length_dropWhile_le [of is_name_char r]
  show "(r2, c # s) \<in> measure length" by simp
next
  fix c s d r x2 as y e rest
  assume "s = d # r" "lex_attrs (dropWhile is_name_char r) = Some x2" "(as, y) = x2"
    "(e, rest) = y"
  with lex_attrs_length [of "dropWhile is_name_char r" as e rest]
    length_dropWhile_le [of is_name_char r]
  show "(rest, c # s) \<in> measure length" by simp
next
  fix c s t
  show "(dropWhile (\<lambda>x. x \<noteq> CHR ''<'') s, c # s) \<in> measure length"
    using length_dropWhile_le [of "\<lambda>x. x \<noteq> CHR ''<''" s] by simp
qed

text \<open>The tree as it is read, names and attributes not yet resolved.\<close>

datatype rawxml = RElem string "(string \<times> string) list" "rawxml list" | RText string

text \<open>
  The tree of a token sequence: \<open>cur\<close> holds the nodes read so far at the current level,
  last first, and \<open>stack\<close> the open elements, each with the nodes read before it at its
  level.
\<close>

fun build ::
  "token list \<Rightarrow> (string \<times> (string \<times> string) list \<times> rawxml list) list \<Rightarrow> rawxml list
     \<Rightarrow> rawxml list option" where
  "build [] [] cur = Some (rev cur)"
| "build [] (open # stack) cur = None"
| "build (TText t # ts) stack cur = build ts stack (RText t # cur)"
| "build (TEmpty n as # ts) stack cur = build ts stack (RElem n as [] # cur)"
| "build (TStart n as # ts) stack cur = build ts ((n, as, cur) # stack) []"
| "build (TEnd n # ts) [] cur = None"
| "build (TEnd n # ts) ((m, as, sibs) # stack) cur =
     (if n = m then build ts stack (RElem m as (rev cur) # sibs) else None)"

text \<open>
  Namespaces.  \<open>env\<close> maps a prefix (\<open>None\<close> for the default namespace) to its URI.  A
  declaration \<^verbatim>\<open>xmlns="..."\<close> or \<^verbatim>\<open>xmlns:p="..."\<close> is in scope in its element; the empty
  default declaration takes the default namespace away.  An unprefixed attribute has
  no namespace.  The prefix \<^verbatim>\<open>xml\<close> is always declared.  A prefix that is not
  declared is an error, and so is an attribute that an element has twice.
\<close>

definition xml_ns :: string where
  "xml_ns = ''http://www.w3.org/XML/1998/namespace''"

definition split_name :: "string \<Rightarrow> string option \<times> string" where
  "split_name n =
     (if CHR '':'' \<in> set n
      then (Some (takeWhile (\<lambda>c. c \<noteq> CHR '':'') n), tl (dropWhile (\<lambda>c. c \<noteq> CHR '':'') n))
      else (None, n))"

fun declare_ns ::
  "(string option \<rightharpoonup> string) \<Rightarrow> (string \<times> string) list \<Rightarrow> (string option \<rightharpoonup> string)" where
  "declare_ns env [] = env"
| "declare_ns env ((n, v) # as) =
     declare_ns
       (if n = ''xmlns'' then (if v = [] then env(None := None) else env(None \<mapsto> v))
        else if prefix ''xmlns:'' n then env(Some (drop 6 n) \<mapsto> v)
        else env)
       as"

definition is_ns_decl :: "string \<times> string \<Rightarrow> bool" where
  "is_ns_decl a = (fst a = ''xmlns'' \<or> prefix ''xmlns:'' (fst a))"

fun resolve_attrs ::
  "(string option \<rightharpoonup> string) \<Rightarrow> (string \<times> string) list \<Rightarrow> (qname \<times> string) list option" where
  "resolve_attrs env [] = Some []"
| "resolve_attrs env ((n, v) # as) =
     (case resolve_attrs env as of
        None \<Rightarrow> None
      | Some rs \<Rightarrow>
          (case split_name n of
             (None, l) \<Rightarrow> Some ((QName None l, v) # rs)
           | (Some p, l) \<Rightarrow>
               (case env (Some p) of
                  None \<Rightarrow> None
                | Some u \<Rightarrow> Some ((QName (Some u) l, v) # rs))))"

fun resolve :: "(string option \<rightharpoonup> string) \<Rightarrow> rawxml \<Rightarrow> xml option"
  and resolve_list :: "(string option \<rightharpoonup> string) \<Rightarrow> rawxml list \<Rightarrow> xml list option" where
  "resolve env (RText t) = Some (Text t)"
| "resolve env (RElem n as ch) =
     (let env' = declare_ns env as in
      case split_name n of (p, l) \<Rightarrow>
        if p \<noteq> None \<and> env' p = None then None
        else if \<not> distinct (map fst as) then None
        else
          (case (resolve_attrs env' (filter (\<lambda>a. \<not> is_ns_decl a) as), resolve_list env' ch) of
             (Some as', Some ch') \<Rightarrow>
               if distinct (map fst as') then Some (Element (QName (env' p) l) as' ch')
               else None
           | _ \<Rightarrow> None))"
| "resolve_list env [] = Some []"
| "resolve_list env (n # ns) =
     (case (resolve env n, resolve_list env ns) of
        (Some x, Some xs) \<Rightarrow> Some (x # xs)
      | _ \<Rightarrow> None)"

text \<open>
  A document is one element; white space may stand before and after it.
\<close>

definition is_blank :: "rawxml \<Rightarrow> bool" where
  "is_blank n = (case n of RText t \<Rightarrow> list_all is_space t | RElem _ _ _ \<Rightarrow> False)"

definition etree_XML :: "string \<Rightarrow> xml option" where
  "etree_XML s =
     (case lex (normalize_eol s) of
        None \<Rightarrow> None
      | Some ts \<Rightarrow>
          (case build ts [] [] of
             None \<Rightarrow> None
           | Some ns \<Rightarrow>
               (case filter (\<lambda>n. \<not> is_blank n) ns of
                  [RElem n as ch] \<Rightarrow> resolve [Some ''xml'' \<mapsto> xml_ns] (RElem n as ch)
                | _ \<Rightarrow> None)))"

text \<open>
  The serialiser writes the namespace of an element as a default namespace declaration
  where it differs from the one in scope, and gives every qualified attribute a prefix
  of its own.
\<close>

fun escape :: "string \<Rightarrow> string" where
  "escape [] = []"
| "escape (c # s) =
     (if c = CHR ''<'' then ''&lt;'' else if c = CHR ''>'' then ''&gt;''
      else if c = CHR ''&'' then ''&amp;'' else if c = CHR 0x22 then ''&quot;'' else [c])
     @ escape s"

fun digits :: "nat \<Rightarrow> string" where
  "digits n = (if n < 10 then [char_of (48 + n)] else digits (n div 10) @ [char_of (48 + n mod 10)])"

fun ser_attrs :: "nat \<Rightarrow> (qname \<times> string) list \<Rightarrow> string" where
  "ser_attrs i [] = []"
| "ser_attrs i ((QName None l, v) # as) =
     '' '' @ l @ ''='' @ [CHR 0x22] @ escape v @ [CHR 0x22] @ ser_attrs (Suc i) as"
| "ser_attrs i ((QName (Some u) l, v) # as) =
     '' xmlns:ns'' @ digits i @ ''='' @ [CHR 0x22] @ escape u @ [CHR 0x22]
       @ '' ns'' @ digits i @ '':'' @ l @ ''='' @ [CHR 0x22] @ escape v @ [CHR 0x22]
       @ ser_attrs (Suc i) as"

fun ser :: "string option \<Rightarrow> xml \<Rightarrow> string" where
  "ser d (Element q as ch) =
     ''<'' @ localname q
       @ (if namespace q = d then []
          else '' xmlns='' @ [CHR 0x22]
                 @ (case namespace q of None \<Rightarrow> [] | Some u \<Rightarrow> escape u) @ [CHR 0x22])
       @ ser_attrs 0 as
       @ (if ch = [] then ''/>''
          else ''>'' @ concat (map (ser (namespace q)) ch) @ ''</'' @ localname q @ ''>'')"
| "ser d (Text t) = escape t"
| "ser d (Comment t) = ''<!--'' @ t @ ''-->''"
| "ser d (PI t c) = ''<?'' @ t @ '' '' @ c @ ''?>''"

definition etree_tostring :: "xml list \<Rightarrow> string" where
  "etree_tostring ns = concat (map (ser None) ns)"

section \<open>Properties of the matcher\<close>

lemma rmatch_lit:
  "rmatch (lit l @ r) s = (if prefix l s then rmatch r (drop (length l) s) else None)"
proof (induction l arbitrary: s)
  case Nil
  then show ?case by (simp add: lit_def)
next
  case (Cons c l)
  have IH: "\<And>s. rmatch (lit l @ r) s = (if prefix l s then rmatch r (drop (length l) s) else None)"
    using Cons.IH by simp
  show ?case
  proof (cases s)
    case Nil
    then show ?thesis by (simp add: lit_def)
  next
    case (Cons d s')
    have "rmatch (lit (c # l) @ r) (d # s') = (if c = d then rmatch (lit l @ r) s' else None)"
      by (simp add: lit_def)
    with IH Cons show ?thesis by simp
  qed
qed

lemma rmatch_lit_only:
  "rmatch (lit l) s = (if prefix l s then Some (drop (length l) s) else None)"
  using rmatch_lit [of l "[]" s] by simp

lemma re_search_None_iff:
  "re_search p s = None \<longleftrightarrow> (\<forall>u v. s = u @ v \<longrightarrow> rmatch p v = None)"
proof (induction s)
  case Nil
  then show ?case by (simp add: re_search.simps [of p "[]"] split: option.splits)
next
  case (Cons c s)
  have "re_search p (c # s) = None \<longleftrightarrow> rmatch p (c # s) = None \<and> re_search p s = None"
    by (simp add: re_search.simps [of p "c # s"] split: option.splits)
  also have "\<dots> \<longleftrightarrow> rmatch p (c # s) = None \<and> (\<forall>u v. s = u @ v \<longrightarrow> rmatch p v = None)"
    using Cons.IH by simp
  also have "\<dots> \<longleftrightarrow> (\<forall>u v. c # s = u @ v \<longrightarrow> rmatch p v = None)"
    by (auto simp: Cons_eq_append_conv)
  finally show ?case .
qed

text \<open>The leftmost match: the pattern matches after \<open>u\<close> and at no earlier position.\<close>

lemma re_search_first:
  assumes "rmatch p v = Some t"
    and "\<And>u1 u2. u = u1 @ u2 \<Longrightarrow> u2 \<noteq> [] \<Longrightarrow> rmatch p (u2 @ v) = None"
  shows "re_search p (u @ v) = Some (u, take (length v - length t) v, t)"
  using assms(2)
proof (induction u)
  case Nil
  with assms(1) show ?case by (simp add: re_search.simps [of p v])
next
  case (Cons c u)
  have "rmatch p ((c # u) @ v) = None"
    using Cons.prems [of "[]" "c # u"] by simp
  moreover have "re_search p (u @ v) = Some (u, take (length v - length t) v, t)"
  proof (rule Cons.IH)
    fix u1 u2 assume "u = u1 @ u2" "u2 \<noteq> []"
    then show "rmatch p (u2 @ v) = None" using Cons.prems [of "c # u1" u2] by simp
  qed
  ultimately show ?case by (simp add: re_search.simps [of p "c # u @ v"])
qed

lemma re_search_lit_None: "\<not> sublist l s \<Longrightarrow> re_search (lit l) s = None"
  unfolding re_search_None_iff rmatch_lit_only
  by (auto simp: sublist_def prefix_def)

text \<open>
  A string whose first character does not occur again in it cannot overlap itself, so
  its first occurrence after a text \<open>a\<close> that does not contain it starts right after \<open>a\<close>.
\<close>

lemma prefix_border_free:
  assumes "c \<notin> set l'" "\<not> prefix (c # l') a" "a \<noteq> []"
  shows "\<not> prefix (c # l') (a @ (c # l') @ b)"
proof
  assume "prefix (c # l') (a @ (c # l') @ b)"
  then have "prefix (c # l') a \<or> (\<exists>us. c # l' = a @ us \<and> prefix us ((c # l') @ b))"
    by (simp only: prefix_append)
  with assms(2) obtain w where w: "c # l' = a @ w" "prefix w ((c # l') @ b)"
    by blast
  from w(1) assms(2) have "w \<noteq> []" by auto
  with w(2) have "hd w = c" by (cases w) auto
  moreover from w(1) assms(3) have "set w \<subseteq> set l'"
    by (cases a) auto
  ultimately show False using assms(1) \<open>w \<noteq> []\<close> by (cases w) auto
qed

lemma re_search_lit_first:
  assumes "c \<notin> set l'" "\<not> sublist (c # l') a"
  shows "re_search (lit (c # l')) (a @ (c # l') @ b) = Some (a, c # l', b)"
proof -
  have m: "rmatch (lit (c # l')) ((c # l') @ b) = Some b"
    unfolding rmatch_lit_only by simp
  have "re_search (lit (c # l')) (a @ ((c # l') @ b))
      = Some (a, take (length ((c # l') @ b) - length b) ((c # l') @ b), b)"
  proof (rule re_search_first [OF m])
    fix u1 u2 assume u: "a = u1 @ u2" "u2 \<noteq> []"
    with assms(2) have "\<not> prefix (c # l') u2"
      by (auto simp: sublist_def prefix_def)
    from prefix_border_free [OF assms(1) this u(2)]
    show "rmatch (lit (c # l')) (u2 @ (c # l') @ b) = None"
      unfolding rmatch_lit_only by simp
  qed
  then show ?thesis by simp
qed

lemma first_occurrence:
  "sublist l s \<Longrightarrow> l \<noteq> [] \<Longrightarrow> \<exists>a b. s = a @ l @ b \<and> \<not> sublist l a"
proof (induction s)
  case Nil
  then show ?case by simp
next
  case (Cons c s)
  show ?case
  proof (cases "prefix l (c # s)")
    case True
    then obtain b where "c # s = [] @ l @ b" by (auto simp: prefix_def)
    moreover have "\<not> sublist l []" using Cons.prems(2) by simp
    ultimately show ?thesis by blast
  next
    case False
    with Cons.prems have "sublist l s" by (simp add: sublist_Cons_right)
    from Cons.IH [OF this Cons.prems(2)] obtain a b where ab: "s = a @ l @ b" "\<not> sublist l a"
      by blast
    have "\<not> prefix l (c # a)"
    proof
      assume "prefix l (c # a)"
      then have "prefix l ((c # a) @ l @ b)" by (rule prefix_prefix)
      then have "prefix l (c # s)" using ab(1) by simp
      with False show False ..
    qed
    with ab(2) have "\<not> sublist l (c # a)" by (simp add: sublist_Cons_right)
    moreover have "c # s = (c # a) @ l @ b" using ab(1) by simp
    ultimately show ?thesis by blast
  qed
qed

text \<open>Every string is its pieces between the occurrences of a marker, joined by it.\<close>

lemma split_at_marker:
  "l \<noteq> [] \<Longrightarrow> \<exists>ps. ps \<noteq> [] \<and> (\<forall>p\<in>set ps. \<not> sublist l p) \<and> s = join l ps"
proof (induction "length s" arbitrary: s rule: less_induct)
  case less
  show ?case
  proof (cases "sublist l s")
    case False
    then have "[s] \<noteq> [] \<and> (\<forall>p\<in>set [s]. \<not> sublist l p) \<and> s = join l [s]" by simp
    then show ?thesis by blast
  next
    case True
    from first_occurrence [OF True less.prems] obtain a b where
      ab: "s = a @ l @ b" "\<not> sublist l a" by blast
    with less.prems have "length b < length s" by (cases l) auto
    from less.hyps [OF this less.prems] obtain ps where
      ps: "ps \<noteq> []" "\<forall>p\<in>set ps. \<not> sublist l p" "b = join l ps" by blast
    then obtain y ys where "ps = y # ys" by (cases ps) auto
    with ps ab have "a # ps \<noteq> [] \<and> (\<forall>p\<in>set (a # ps). \<not> sublist l p) \<and> s = join l (a # ps)"
      by simp
    then show ?thesis by blast
  qed
qed

subsection \<open>What the envelope pattern matches\<close>

lemma rmatch_lit_Some_iff:
  "rmatch (lit l @ r) s \<noteq> None \<longleftrightarrow> (\<exists>v. s = l @ v \<and> rmatch r v \<noteq> None)"
  unfolding rmatch_lit by (auto simp: prefix_def)

lemma ex_split_Cons:
  "(\<exists>u v. c # s = u @ v \<and> Q v) \<longleftrightarrow> Q (c # s) \<or> (\<exists>u v. s = u @ v \<and> Q v)"
proof
  assume "\<exists>u v. c # s = u @ v \<and> Q v"
  then obtain u v where uv: "c # s = u @ v" "Q v" by blast
  show "Q (c # s) \<or> (\<exists>u v. s = u @ v \<and> Q v)"
  proof (cases u)
    case Nil
    with uv show ?thesis by simp
  next
    case (Cons d u')
    with uv have "s = u' @ v" by simp
    with uv(2) show ?thesis by blast
  qed
next
  assume "Q (c # s) \<or> (\<exists>u v. s = u @ v \<and> Q v)"
  then show "\<exists>u v. c # s = u @ v \<and> Q v"
  proof
    assume "Q (c # s)"
    then have "c # s = [] @ (c # s) \<and> Q (c # s)" by simp
    then show ?thesis by blast
  next
    assume "\<exists>u v. s = u @ v \<and> Q v"
    then obtain u v where "s = u @ v" "Q v" by blast
    then have "c # s = (c # u) @ v \<and> Q v" by simp
    then show ?thesis by blast
  qed
qed

lemma rmatch_StarLazy_Dot:
  "rmatch (StarLazy Dot # r) s \<noteq> None \<longleftrightarrow> (\<exists>u v. s = u @ v \<and> rmatch r v \<noteq> None)"
proof (induction s)
  case Nil
  then show ?case by simp
next
  case (Cons c s)
  have "rmatch (StarLazy Dot # r) (c # s) \<noteq> None
      \<longleftrightarrow> rmatch r (c # s) \<noteq> None \<or> rmatch (StarLazy Dot # r) s \<noteq> None"
    by (cases "rmatch r (c # s)") simp_all
  also have "\<dots> \<longleftrightarrow> rmatch r (c # s) \<noteq> None \<or> (\<exists>u v. s = u @ v \<and> rmatch r v \<noteq> None)"
    using Cons.IH by (rule arg_cong)
  also have "\<dots> \<longleftrightarrow> (\<exists>u v. c # s = u @ v \<and> rmatch r v \<noteq> None)"
    by (rule ex_split_Cons [symmetric])
  finally show ?case .
qed

lemma rmatch_Star_Dot:
  "rmatch (Star Dot # r) s \<noteq> None \<longleftrightarrow> (\<exists>u v. s = u @ v \<and> rmatch r v \<noteq> None)"
proof (induction s)
  case Nil
  then show ?case by simp
next
  case (Cons c s)
  have "rmatch (Star Dot # r) (c # s) \<noteq> None
      \<longleftrightarrow> rmatch r (c # s) \<noteq> None \<or> rmatch (Star Dot # r) s \<noteq> None"
    by (cases "rmatch (Star Dot # r) s") auto
  also have "\<dots> \<longleftrightarrow> rmatch r (c # s) \<noteq> None \<or> (\<exists>u v. s = u @ v \<and> rmatch r v \<noteq> None)"
    using Cons.IH by (rule arg_cong)
  also have "\<dots> \<longleftrightarrow> (\<exists>u v. c # s = u @ v \<and> rmatch r v \<noteq> None)"
    by (rule ex_split_Cons [symmetric])
  finally show ?case .
qed

lemma rmatch_Opt_last: "rmatch [Opt a] s \<noteq> None"
  by (cases s) auto

lemma re_search_Some_iff:
  "re_search p s \<noteq> None \<longleftrightarrow> (\<exists>u v. s = u @ v \<and> rmatch p v \<noteq> None)"
proof -
  have "re_search p s \<noteq> None \<longleftrightarrow> \<not> (\<forall>u v. s = u @ v \<longrightarrow> rmatch p v = None)"
    by (simp only: re_search_None_iff)
  then show ?thesis by simp
qed

lemma rmatch_lit_cont:
  "rmatch (lit l @ r) (l @ v) = rmatch r v"
  by (simp add: rmatch_lit)

lemma rmatch_StarLazy_Dot_skip:
  "rmatch r v \<noteq> None \<Longrightarrow> rmatch (StarLazy Dot # r) (u @ v) \<noteq> None"
  unfolding rmatch_StarLazy_Dot by blast

lemma rmatch_Star_Dot_skip:
  "rmatch r v \<noteq> None \<Longrightarrow> rmatch (Star Dot # r) (u @ v) \<noteq> None"
  unfolding rmatch_Star_Dot by blast

lemma envelope_generic:
  "rmatch (lit A @ StarLazy Dot # lit B @ Star Dot # lit C @ [Opt x]) s \<noteq> None \<longleftrightarrow>
   (\<exists>b c d. s = A @ b @ B @ c @ C @ d)"
proof
  assume "rmatch (lit A @ StarLazy Dot # lit B @ Star Dot # lit C @ [Opt x]) s \<noteq> None"
  then obtain v where v: "s = A @ v"
    "rmatch (StarLazy Dot # lit B @ Star Dot # lit C @ [Opt x]) v \<noteq> None"
    unfolding rmatch_lit_Some_iff [of A] by blast
  from v(2) obtain b w where w: "v = b @ w"
    "rmatch (lit B @ Star Dot # lit C @ [Opt x]) w \<noteq> None"
    unfolding rmatch_StarLazy_Dot by blast
  from w(2) obtain y where y: "w = B @ y" "rmatch (Star Dot # lit C @ [Opt x]) y \<noteq> None"
    unfolding rmatch_lit_Some_iff [of B] by blast
  from y(2) obtain c z where z: "y = c @ z" "rmatch (lit C @ [Opt x]) z \<noteq> None"
    unfolding rmatch_Star_Dot by blast
  from z(2) obtain d where d: "z = C @ d"
    unfolding rmatch_lit_Some_iff [of C] by blast
  have "s = A @ b @ B @ c @ C @ d" by (simp only: v(1) w(1) y(1) z(1) d)
  then show "\<exists>b c d. s = A @ b @ B @ c @ C @ d" by (intro exI)
next
  assume "\<exists>b c d. s = A @ b @ B @ c @ C @ d"
  then obtain b c d where s: "s = A @ b @ B @ c @ C @ d" by blast
  have "rmatch (lit C @ [Opt x]) (C @ d) \<noteq> None"
    by (simp add: rmatch_lit_cont rmatch_Opt_last)
  then have "rmatch (Star Dot # lit C @ [Opt x]) (c @ C @ d) \<noteq> None"
    by (rule rmatch_Star_Dot_skip)
  then have "rmatch (lit B @ Star Dot # lit C @ [Opt x]) (B @ c @ C @ d) \<noteq> None"
    by (simp add: rmatch_lit_cont)
  then have "rmatch (StarLazy Dot # lit B @ Star Dot # lit C @ [Opt x]) (b @ B @ c @ C @ d) \<noteq> None"
    by (rule rmatch_StarLazy_Dot_skip)
  then show "rmatch (lit A @ StarLazy Dot # lit B @ Star Dot # lit C @ [Opt x]) s \<noteq> None"
    by (simp add: s rmatch_lit_cont)
qed

text \<open>
  The envelope pattern matches somewhere in a reply exactly when the reply holds
  \<^verbatim>\<open><rpc-reply>\<close>, later \<^verbatim>\<open></rpc-reply>\<close> and later \<^verbatim>\<open></hello\<close>.
\<close>

lemma reply_pattern_matches:
  "re_search reply_pattern raw \<noteq> None \<longleftrightarrow>
   (\<exists>a b c d. raw = a @ ''<rpc-reply>'' @ b @ ''</rpc-reply>'' @ c @ ''</hello'' @ d)"
proof -
  have eq: "reply_pattern = lit ''<rpc-reply>'' @ StarLazy Dot
        # lit ''</rpc-reply>'' @ Star Dot # lit ''</hello'' @ [Opt (Chr CHR ''>'')]"
    unfolding reply_pattern_def by (simp only: append_Cons append_Nil)
  have "re_search reply_pattern raw \<noteq> None \<longleftrightarrow>
      (\<exists>a v. raw = a @ v
         \<and> (\<exists>b c d. v = ''<rpc-reply>'' @ b @ ''</rpc-reply>'' @ c @ ''</hello'' @ d))"
    by (simp only: re_search_Some_iff eq envelope_generic)
  also have "\<dots> \<longleftrightarrow>
      (\<exists>a b c d. raw = a @ ''<rpc-reply>'' @ b @ ''</rpc-reply>'' @ c @ ''</hello'' @ d)"
  proof
    assume "\<exists>a v. raw = a @ v
         \<and> (\<exists>b c d. v = ''<rpc-reply>'' @ b @ ''</rpc-reply>'' @ c @ ''</hello'' @ d)"
    then obtain a v b c d where "raw = a @ v"
      "v = ''<rpc-reply>'' @ b @ ''</rpc-reply>'' @ c @ ''</hello'' @ d" by blast
    then have "raw = a @ ''<rpc-reply>'' @ b @ ''</rpc-reply>'' @ c @ ''</hello'' @ d"
      by (simp only:)
    then show "\<exists>a b c d. raw = a @ ''<rpc-reply>'' @ b @ ''</rpc-reply>'' @ c @ ''</hello'' @ d"
      by (intro exI)
  next
    assume "\<exists>a b c d. raw = a @ ''<rpc-reply>'' @ b @ ''</rpc-reply>'' @ c @ ''</hello'' @ d"
    then obtain a b c d where
      "raw = a @ ''<rpc-reply>'' @ b @ ''</rpc-reply>'' @ c @ ''</hello'' @ d" by blast
    then have "raw = a @ (''<rpc-reply>'' @ b @ ''</rpc-reply>'' @ c @ ''</hello'' @ d)
        \<and> (\<exists>b' c' d'. ''<rpc-reply>'' @ b @ ''</rpc-reply>'' @ c @ ''</hello'' @ d
              = ''<rpc-reply>'' @ b' @ ''</rpc-reply>'' @ c' @ ''</hello'' @ d')"
      by (intro conjI exI [of _ b] exI [of _ c] exI [of _ d] refl)
    then show "\<exists>a v. raw = a @ v
         \<and> (\<exists>b c d. v = ''<rpc-reply>'' @ b @ ''</rpc-reply>'' @ c @ ''</hello'' @ d)"
      by (intro exI)
  qed
  finally show ?thesis .
qed

subsection \<open>What \<^verbatim>\<open>re.findall\<close> finds\<close>

lemma rmatch_lit_only_Some_iff: "rmatch (lit l) s \<noteq> None \<longleftrightarrow> (\<exists>d. s = l @ d)"
  unfolding rmatch_lit_only by (auto simp: prefix_def)

lemma fragment_generic:
  "rmatch (lit A @ StarLazy Dot # lit B) s \<noteq> None \<longleftrightarrow> (\<exists>b d. s = A @ b @ B @ d)"
proof
  assume "rmatch (lit A @ StarLazy Dot # lit B) s \<noteq> None"
  then obtain v where v: "s = A @ v" "rmatch (StarLazy Dot # lit B) v \<noteq> None"
    unfolding rmatch_lit_Some_iff [of A] by blast
  from v(2) obtain b w where w: "v = b @ w" "rmatch (lit B) w \<noteq> None"
    unfolding rmatch_StarLazy_Dot by blast
  from w(2) obtain d where d: "w = B @ d"
    unfolding rmatch_lit_only_Some_iff by blast
  have "s = A @ b @ B @ d" by (simp only: v(1) w(1) d)
  then show "\<exists>b d. s = A @ b @ B @ d" by (intro exI)
next
  assume "\<exists>b d. s = A @ b @ B @ d"
  then obtain b d where s: "s = A @ b @ B @ d" by blast
  have "rmatch (lit B) (B @ d) \<noteq> None"
    by (simp add: rmatch_lit_only)
  then have "rmatch (StarLazy Dot # lit B) (b @ B @ d) \<noteq> None"
    by (rule rmatch_StarLazy_Dot_skip)
  then show "rmatch (lit A @ StarLazy Dot # lit B) s \<noteq> None"
    by (simp add: s rmatch_lit_cont)
qed

lemma re_findall_Nil_iff: "re_findall p s = [] \<longleftrightarrow> re_search p s = None"
  by (subst re_findall.simps) (auto split: option.splits list.splits)

text \<open>
  \<^verbatim>\<open>re.findall\<close> finds a fragment exactly when the reply holds \<^verbatim>\<open><rpc-error>\<close> and
  later \<^verbatim>\<open></rpc-error>\<close>.
\<close>

lemma error_pattern_matches:
  "re_findall error_pattern raw \<noteq> [] \<longleftrightarrow>
   (\<exists>u body v. raw = u @ ''<rpc-error>'' @ body @ ''</rpc-error>'' @ v)"
proof -
  have eq: "error_pattern = lit ''<rpc-error>'' @ StarLazy Dot # lit ''</rpc-error>''"
    unfolding error_pattern_def by (simp only: append_Cons append_Nil)
  have "re_findall error_pattern raw \<noteq> [] \<longleftrightarrow>
      (\<exists>u w. raw = u @ w \<and> (\<exists>body v. w = ''<rpc-error>'' @ body @ ''</rpc-error>'' @ v))"
    by (simp only: re_findall_Nil_iff re_search_Some_iff eq fragment_generic)
  also have "\<dots> \<longleftrightarrow> (\<exists>u body v. raw = u @ ''<rpc-error>'' @ body @ ''</rpc-error>'' @ v)"
  proof
    assume "\<exists>u w. raw = u @ w \<and> (\<exists>body v. w = ''<rpc-error>'' @ body @ ''</rpc-error>'' @ v)"
    then obtain u w body v where "raw = u @ w"
      "w = ''<rpc-error>'' @ body @ ''</rpc-error>'' @ v" by blast
    then have "raw = u @ ''<rpc-error>'' @ body @ ''</rpc-error>'' @ v" by (simp only:)
    then show "\<exists>u body v. raw = u @ ''<rpc-error>'' @ body @ ''</rpc-error>'' @ v"
      by (intro exI)
  next
    assume "\<exists>u body v. raw = u @ ''<rpc-error>'' @ body @ ''</rpc-error>'' @ v"
    then obtain u body v where "raw = u @ ''<rpc-error>'' @ body @ ''</rpc-error>'' @ v"
      by blast
    then have "raw = u @ (''<rpc-error>'' @ body @ ''</rpc-error>'' @ v)
        \<and> (\<exists>body' v'. ''<rpc-error>'' @ body @ ''</rpc-error>'' @ v
              = ''<rpc-error>'' @ body' @ ''</rpc-error>'' @ v')"
      by (intro conjI exI [of _ body] exI [of _ v] refl)
    then show "\<exists>u w. raw = u @ w
        \<and> (\<exists>body v. w = ''<rpc-error>'' @ body @ ''</rpc-error>'' @ v)"
      by (intro exI)
  qed
  finally show ?thesis .
qed



lemma rmatch_error_pattern_None:
  "\<not> prefix ''<rpc-error>'' s \<Longrightarrow> rmatch error_pattern s = None"
proof -
  assume "\<not> prefix ''<rpc-error>'' s"
  then have "rmatch (lit ''<rpc-error>'' @ [StarLazy Dot] @ lit ''</rpc-error>'') s = None"
    by (simp only: rmatch_lit if_False)
  then show ?thesis by (simp only: error_pattern_def)
qed

lemma re_search_error_pattern_None:
  assumes "\<not> sublist ''<rpc-error>'' g"
  shows "re_search error_pattern g = None"
  unfolding re_search_None_iff
proof (intro allI impI)
  fix u v assume "g = u @ v"
  with assms have "\<not> prefix ''<rpc-error>'' v"
    by (auto simp: sublist_def prefix_def)
  then show "rmatch error_pattern v = None" by (rule rmatch_error_pattern_None)
qed


text \<open>A match leaves a suffix of the text it was run on.\<close>

lemma rmatch_suffix: "rmatch p s = Some t \<Longrightarrow> \<exists>m. s = m @ t"
proof (induction p s arbitrary: t rule: rmatch.induct)
  case (1 s)
  then show ?case by simp
next
  case (3 a r c s)
  then obtain m where "s = m @ t" by (auto split: if_splits)
  then have "c # s = (c # m) @ t" by simp
  then show ?case by blast
next
  case (5 a r c s)
  show ?case
  proof (cases "amatch a c")
    case True
    show ?thesis
    proof (cases "rmatch r s")
      case None
      with True "5.prems" have "rmatch r (c # s) = Some t" by simp
      from "5.IH"(2) [OF True None this] show ?thesis .
    next
      case (Some t')
      with True "5.prems" have "t' = t" by simp
      with "5.IH"(1) [OF True] Some obtain m where "s = m @ t" by blast
      then have "c # s = (c # m) @ t" by simp
      then show ?thesis by blast
    qed
  next
    case False
    with "5.prems" have "rmatch r (c # s) = Some t" by simp
    from "5.IH"(3) [OF False this] show ?thesis .
  qed
next
  case (7 a r c s)
  show ?case
  proof (cases "amatch a c")
    case True
    show ?thesis
    proof (cases "rmatch (Star a # r) s")
      case None
      with True "7.prems" have "rmatch r (c # s) = Some t" by simp
      from "7.IH"(2) [OF True None this] show ?thesis .
    next
      case (Some t')
      with True "7.prems" have "t' = t" by simp
      with "7.IH"(1) [OF True] Some obtain m where "s = m @ t" by blast
      then have "c # s = (c # m) @ t" by simp
      then show ?thesis by blast
    qed
  next
    case False
    with "7.prems" have "rmatch r (c # s) = Some t" by simp
    from "7.IH"(3) [OF False this] show ?thesis .
  qed
next
  case (9 a r c s)
  show ?case
  proof (cases "rmatch r (c # s)")
    case (Some t')
    with "9.prems" have "t' = t" by simp
    with "9.IH"(1) Some show ?thesis by blast
  next
    case None
    with "9.prems" have am: "amatch a c" and r: "rmatch (StarLazy a # r) s = Some t"
      by (auto split: if_splits)
    from "9.IH"(2) [OF None am r] obtain m where "s = m @ t" by blast
    then have "c # s = (c # m) @ t" by simp
    then show ?thesis by blast
  qed
qed auto

text \<open>What a successful search says: the parts, the match, and that it is the leftmost.\<close>

lemma re_search_SomeD:
  assumes "re_search p s = Some (b, m, a)"
  shows "s = b @ m @ a \<and> rmatch p (m @ a) = Some a
         \<and> (\<forall>u1 u2. b = u1 @ u2 \<and> u2 \<noteq> [] \<longrightarrow> rmatch p (u2 @ m @ a) = None)"
  using assms
proof (induction s arbitrary: b)
  case Nil
  from Nil obtain t where t: "rmatch p [] = Some t" and e: "b = []" "m = take (0 - length t) []" "a = t"
    by (auto simp: re_search.simps [of p "[]"] split: option.splits)
  from rmatch_suffix [OF t] have "t = []" by simp
  with t e show ?case by simp
next
  case (Cons c s)
  show ?case
  proof (cases "rmatch p (c # s)")
    case (Some t)
    with Cons.prems have e: "b = []" "m = take (length (c # s) - length t) (c # s)" "a = t"
      by (auto simp: re_search.simps [of p "c # s"])
    from rmatch_suffix [OF Some] obtain m' where m': "c # s = m' @ t" by blast
    then have "length (c # s) - length t = length m'"
      by (metis add_diff_cancel_right' length_append)
    with e m' have "m = m'" by simp
    with e m' Some show ?thesis by simp
  next
    case None
    with Cons.prems obtain b' where b': "re_search p s = Some (b', m, a)" "b = c # b'"
      by (auto simp: re_search.simps [of p "c # s"] split: option.splits)
    from Cons.IH [OF b'(1)] have IH: "s = b' @ m @ a" "rmatch p (m @ a) = Some a"
      "\<forall>u1 u2. b' = u1 @ u2 \<and> u2 \<noteq> [] \<longrightarrow> rmatch p (u2 @ m @ a) = None" by simp_all
    have "\<forall>u1 u2. b = u1 @ u2 \<and> u2 \<noteq> [] \<longrightarrow> rmatch p (u2 @ m @ a) = None"
    proof (intro allI impI)
      fix u1 u2 assume u: "b = u1 @ u2 \<and> u2 \<noteq> []"
      show "rmatch p (u2 @ m @ a) = None"
      proof (cases u1)
        case Nil
        with u b'(2) have "u2 = c # b'" by simp
        with IH(1) None show ?thesis by simp
      next
        case (Cons x u1')
        with u b'(2) have "b' = u1' @ u2 \<and> u2 \<noteq> []" by simp
        with IH(3) show ?thesis by blast
      qed
    qed
    with IH b'(2) show ?thesis by simp
  qed
qed

text \<open>The lazy star before a literal stops at the first occurrence of the literal.\<close>

lemma rmatch_StarLazy_lit_SomeD:
  assumes "l \<noteq> []"
  shows "rmatch (StarLazy Dot # lit l) s = Some t \<Longrightarrow>
         \<exists>body. s = body @ l @ t \<and> \<not> sublist l body"
proof (induction s)
  case Nil
  then have "rmatch (lit l) [] = Some t" by simp
  with assms show ?case by (simp add: rmatch_lit_only split: if_splits)
next
  case (Cons c s)
  show ?case
  proof (cases "prefix l (c # s)")
    case True
    then have "rmatch (lit l) (c # s) = Some (drop (length l) (c # s))"
      by (simp add: rmatch_lit_only)
    with Cons.prems have t: "t = drop (length l) (c # s)" by simp
    from True have "c # s = l @ drop (length l) (c # s)"
      by (metis append_eq_conv_conj prefix_def)
    with t have "c # s = [] @ l @ t" by simp
    moreover have "\<not> sublist l []" using assms by simp
    ultimately show ?thesis by blast
  next
    case False
    then have "rmatch (lit l) (c # s) = None" by (simp add: rmatch_lit_only)
    with Cons.prems have "rmatch (StarLazy Dot # lit l) s = Some t" by simp
    from Cons.IH [OF this] obtain body where b: "s = body @ l @ t" "\<not> sublist l body" by blast
    have "\<not> prefix l (c # body)"
    proof
      assume "prefix l (c # body)"
      then have "prefix l ((c # body) @ l @ t)" by (rule prefix_prefix)
      with b(1) False show False by simp
    qed
    with b(2) have "\<not> sublist l (c # body)" by (simp add: sublist_Cons_right)
    moreover from b(1) have "c # s = (c # body) @ l @ t" by simp
    ultimately show ?thesis by blast
  qed
qed

lemma re_search_error_pattern_SomeD:
  assumes "re_search error_pattern s = Some (b, m, a)"
  shows "s = b @ m @ a \<and> \<not> sublist ''<rpc-error>'' b
         \<and> (\<exists>body. m = fragment body \<and> \<not> sublist ''</rpc-error>'' body)"
proof -
  from re_search_SomeD [OF assms] have s: "s = b @ m @ a"
    and ma: "rmatch error_pattern (m @ a) = Some a"
    and left: "\<forall>u1 u2. b = u1 @ u2 \<and> u2 \<noteq> [] \<longrightarrow> rmatch error_pattern (u2 @ m @ a) = None"
    by simp_all
  have eq: "error_pattern = lit ''<rpc-error>'' @ StarLazy Dot # lit ''</rpc-error>''"
    unfolding error_pattern_def by (simp only: append_Cons append_Nil)
  from ma have "rmatch (lit ''<rpc-error>'' @ StarLazy Dot # lit ''</rpc-error>'') (m @ a) = Some a"
    by (simp only: eq)
  then have pr: "(if prefix ''<rpc-error>'' (m @ a)
      then rmatch (StarLazy Dot # lit ''</rpc-error>'') (drop (length ''<rpc-error>'') (m @ a))
      else None) = Some a"
    by (simp only: rmatch_lit)
  then have p: "prefix ''<rpc-error>'' (m @ a)"
    by (cases "prefix ''<rpc-error>'' (m @ a)") simp_all
  with pr have r: "rmatch (StarLazy Dot # lit ''</rpc-error>'')
      (drop (length ''<rpc-error>'') (m @ a)) = Some a"
    by (simp only: if_True)
  from rmatch_StarLazy_lit_SomeD [OF _ r] obtain body where
    body: "drop (length ''<rpc-error>'') (m @ a) = body @ ''</rpc-error>'' @ a"
      "\<not> sublist ''</rpc-error>'' body" by blast
  from p have "m @ a = ''<rpc-error>'' @ drop (length ''<rpc-error>'') (m @ a)"
    by (metis append_eq_conv_conj prefix_def)
  with body(1) have "m @ a = (''<rpc-error>'' @ body @ ''</rpc-error>'') @ a"
    by (simp only: append_assoc)
  then have m: "m = fragment body" by (simp only: append_same_eq fragment_def)
  have "\<not> sublist ''<rpc-error>'' b"
  proof
    assume "sublist ''<rpc-error>'' b"
    then obtain u1 u3 where b: "b = u1 @ ''<rpc-error>'' @ u3" by (auto simp: sublist_def)
    have "''<rpc-error>'' @ u3 \<noteq> []" by simp
    with left b have n: "rmatch error_pattern ((''<rpc-error>'' @ u3) @ m @ a) = None" by blast
    have "(''<rpc-error>'' @ u3) @ m @ a
        = ''<rpc-error>'' @ (u3 @ ''<rpc-error>'' @ body) @ ''</rpc-error>'' @ a"
      by (simp only: m fragment_def append_assoc)
    then have "rmatch error_pattern ((''<rpc-error>'' @ u3) @ m @ a) \<noteq> None"
      unfolding eq fragment_generic by (intro exI)
    with n show False by simp
  qed
  with s m body(2) show ?thesis by blast
qed

text \<open>
  What \<^verbatim>\<open>re.findall\<close> returns on a reply made of fragments and the text around them:
  the fragments, from left to right.  The body of a fragment holds no
  \<^verbatim>\<open></rpc-error>\<close>, the text before a fragment holds no \<^verbatim>\<open><rpc-error>\<close>, and the text
  after the last fragment holds no \<^verbatim>\<open><rpc-error>\<close> with a later \<^verbatim>\<open></rpc-error>\<close>.
\<close>

lemma no_fragment_findall:
  assumes "\<not> (\<exists>u y v. g = u @ ''<rpc-error>'' @ y @ ''</rpc-error>'' @ v)"
  shows "re_findall error_pattern g = []"
proof (rule ccontr)
  assume "re_findall error_pattern g \<noteq> []"
  then have "\<exists>u body v. g = u @ ''<rpc-error>'' @ body @ ''</rpc-error>'' @ v"
    by (rule iffD1 [OF error_pattern_matches])
  with assms show False by (rule notE)
qed


text \<open>
  Every reply is made of fragments and the text around them in this way: the search
  finds the leftmost \<^verbatim>\<open><rpc-error>\<close> that has a later \<^verbatim>\<open></rpc-error>\<close>, the fragment ends
  at the first \<^verbatim>\<open></rpc-error>\<close> after it, and the search goes on behind the fragment.
\<close>

lemma reply_is_fragments:
  "\<exists>g rest. raw = reply_with_fragments g rest
     \<and> (\<forall>(body, g')\<in>set rest. \<not> sublist ''</rpc-error>'' body)
     \<and> (\<forall>x\<in>set (butlast (g # map snd rest)). \<not> sublist ''<rpc-error>'' x)
     \<and> \<not> (\<exists>u y v. last (g # map snd rest) = u @ ''<rpc-error>'' @ y @ ''</rpc-error>'' @ v)"
proof (induction "length raw" arbitrary: raw rule: less_induct)
  case less
  show ?case
  proof (cases "re_search error_pattern raw")
    case None
    then have f: "re_findall error_pattern raw = []" by (simp add: re_findall_Nil_iff)
    have n: "\<not> (\<exists>u y v. raw = u @ ''<rpc-error>'' @ y @ ''</rpc-error>'' @ v)"
    proof
      assume "\<exists>u y v. raw = u @ ''<rpc-error>'' @ y @ ''</rpc-error>'' @ v"
      then have "re_findall error_pattern raw \<noteq> []"
        by (rule iffD2 [OF error_pattern_matches])
      with f show False by (rule notE [rotated])
    qed
    have la: "last (raw # map snd []) = raw" by simp
    have A: "raw = reply_with_fragments raw []" by simp
    have B: "\<forall>(body, g')\<in>set []. \<not> sublist ''</rpc-error>'' body" by simp
    have C: "\<forall>x\<in>set (butlast (raw # map snd [])). \<not> sublist ''<rpc-error>'' x" by simp
    have D: "\<not> (\<exists>u y v. last (raw # map snd [])
                    = u @ ''<rpc-error>'' @ y @ ''</rpc-error>'' @ v)"
      unfolding la by (rule n)
    show ?thesis
      by (rule exI [of _ raw], rule exI [of _ "[]"]) (intro conjI A B C D)
  next
    case (Some r)
    obtain b m a where r: "r = (b, m, a)" by (cases r)
    from Some r have s: "re_search error_pattern raw = Some (b, m, a)" by simp
    note d = re_search_error_pattern_SomeD [OF s]
    note raw = d [THEN conjunct1]
    note nb = d [THEN conjunct2, THEN conjunct1]
    from d [THEN conjunct2, THEN conjunct2]
    obtain body where m: "m = fragment body" and body: "\<not> sublist ''</rpc-error>'' body"
      by (elim exE conjE)
    have "m \<noteq> []" by (simp add: m fragment_def)
    with raw have "length a < length raw" by (cases m) simp_all
    note ih = less [OF this]
    from ih obtain g' rest where
      a: "a = reply_with_fragments g' rest"
      and c1: "\<forall>(body, g')\<in>set rest. \<not> sublist ''</rpc-error>'' body"
      and c2: "\<forall>x\<in>set (butlast (g' # map snd rest)). \<not> sublist ''<rpc-error>'' x"
      and c3: "\<not> (\<exists>u y v. last (g' # map snd rest)
                    = u @ ''<rpc-error>'' @ y @ ''</rpc-error>'' @ v)"
      by (elim exE conjE)
    let ?rest = "(body, g') # rest"
    have bl: "butlast (b # map snd ?rest) = b # butlast (g' # map snd rest)" by simp
    have la: "last (b # map snd ?rest) = last (g' # map snd rest)" by simp
    have A: "raw = reply_with_fragments b ?rest" by (simp add: raw m a)
    have B: "\<forall>(body, g')\<in>set ?rest. \<not> sublist ''</rpc-error>'' body"
      using body c1 by simp
    have C: "\<forall>x\<in>set (butlast (b # map snd ?rest)). \<not> sublist ''<rpc-error>'' x"
      unfolding bl using nb c2 by simp
    have D: "\<not> (\<exists>u y v. last (b # map snd ?rest)
                    = u @ ''<rpc-error>'' @ y @ ''</rpc-error>'' @ v)"
      unfolding la by (rule c3)
    show ?thesis
      by (rule exI [of _ b], rule exI [of _ ?rest]) (intro conjI A B C D)
  qed
qed

subsection \<open>The substitution at \<^verbatim>\<open><ok/>\<close>\<close>

lemma re_sub_ok_none: "\<not> sublist ''<ok/>'' s \<Longrightarrow> re_sub ok_pattern repl s = s"
  by (simp add: re_sub.simps [of _ _ s] ok_pattern_def re_search_lit_None)

lemma re_sub_ok_step:
  assumes "\<not> sublist ''<ok/>'' a"
  shows "re_sub ok_pattern repl (a @ ''<ok/>'' @ b) = a @ repl @ re_sub ok_pattern repl b"
proof -
  have eq: "re_search ok_pattern (a @ ''<ok/>'' @ b) = Some (a, ''<ok/>'', b)"
    unfolding ok_pattern_def by (rule re_search_lit_first) (use assms in simp_all)
  show ?thesis
    by (simp only: re_sub.simps [of ok_pattern repl "a @ ''<ok/>'' @ b"] eq) simp
qed

lemma re_sub_ok_join:
  "ps \<noteq> [] \<Longrightarrow> \<forall>p\<in>set ps. \<not> sublist ''<ok/>'' p \<Longrightarrow>
   re_sub ok_pattern repl (join ''<ok/>'' ps) = join repl ps"
proof (induction ps rule: induct_list012)
  case 1
  then show ?case by simp
next
  case (2 x)
  then show ?case by (simp add: re_sub_ok_none)
next
  case (3 x y ys)
  then have IH: "re_sub ok_pattern repl (join ''<ok/>'' (y # ys)) = join repl (y # ys)"
    and x: "\<not> sublist ''<ok/>'' x" by simp_all
  show ?case
    by (simp only: join.simps re_sub_ok_step [OF x] IH)
qed

section \<open>The raw-reply hook: repair and fall-through\<close>

text \<open>
  C3, as the code has it.  A reply that contains \<^verbatim>\<open>routing-engine\<close> comes back as a
  string: the reply with \<^verbatim>\<open></routing-engine>\<close> and a newline put in front of every
  occurrence of \<^verbatim>\<open><ok/>\<close>, the rest kept as it is and in its order.  The pieces \<open>ps\<close>
  are the texts between the occurrences of \<^verbatim>\<open><ok/>\<close>; a reply without \<^verbatim>\<open><ok/>\<close> is
  one piece and comes back unchanged.
\<close>

theorem routing_engine_repair:
  assumes "sublist ''routing-engine'' raw"
  shows "\<exists>ps. ps \<noteq> [] \<and> (\<forall>p\<in>set ps. \<not> sublist ''<ok/>'' p) \<and> raw = join ''<ok/>'' ps
           \<and> handle_raw_dispatch XML tostring raw
               = Inr (PyStr (join (''</routing-engine>'' @ [newline] @ ''<ok/>'') ps))"
proof -
  from split_at_marker [of "''<ok/>''" raw] obtain ps where
    ps: "ps \<noteq> []" "\<forall>p\<in>set ps. \<not> sublist ''<ok/>'' p" "raw = join ''<ok/>'' ps"
    by auto
  have "handle_raw_dispatch XML tostring raw
          = Inr (PyStr (re_sub ok_pattern (''</routing-engine>'' @ [newline] @ ''<ok/>'') raw))"
    using assms by (simp add: handle_raw_dispatch_def)
  also have "re_sub ok_pattern (''</routing-engine>'' @ [newline] @ ''<ok/>'') raw
          = join (''</routing-engine>'' @ [newline] @ ''<ok/>'') ps"
    unfolding ps(3) by (rule re_sub_ok_join [OF ps(1,2)])
  finally show ?thesis using ps by blast
qed

text \<open>
  The scenario of the spec: \<^verbatim>\<open><routing-engine><ok/>\<close> is repaired to
  \<^verbatim>\<open><routing-engine></routing-engine>\<close>, a newline and \<^verbatim>\<open><ok/>\<close>.
\<close>

theorem routing_engine_repair_witness:
  "sublist ''routing-engine'' ''<routing-engine><ok/>''
   \<and> (\<exists>ps. ps \<noteq> [] \<and> (\<forall>p\<in>set ps. \<not> sublist ''<ok/>'' p)
          \<and> ''<routing-engine><ok/>'' = join ''<ok/>'' ps
          \<and> handle_raw_dispatch (\<lambda>s. None) (\<lambda>t. []) ''<routing-engine><ok/>''
               = Inr (PyStr (join (''</routing-engine>'' @ [newline] @ ''<ok/>'') ps)))
   \<and> handle_raw_dispatch (\<lambda>s. None) (\<lambda>t. []) ''<routing-engine><ok/>''
        = Inr (PyStr (''<routing-engine></routing-engine>'' @ [newline] @ ''<ok/>''))"
proof -
  have a: "sublist ''routing-engine'' ''<routing-engine><ok/>''" by code_simp
  have b: "handle_raw_dispatch (\<lambda>s. None) (\<lambda>t. []) ''<routing-engine><ok/>''
        = Inr (PyStr (''<routing-engine></routing-engine>'' @ [newline] @ ''<ok/>''))"
    by code_simp
  from a b routing_engine_repair [OF a, of "\<lambda>s. None" "\<lambda>t. []"] show ?thesis by blast
qed

text \<open>
  With two occurrences of \<^verbatim>\<open><ok/>\<close> the closing tag goes in front of both, not only
  in front of the last one.
\<close>

theorem repair_before_every_ok:
  "sublist ''routing-engine'' ''<routing-engine><ok/><ok/>''
   \<and> handle_raw_dispatch (\<lambda>s. None) (\<lambda>t. []) ''<routing-engine><ok/><ok/>''
        = Inr (PyStr (''<routing-engine></routing-engine>'' @ [newline] @ ''<ok/></routing-engine>''
                        @ [newline] @ ''<ok/>''))
   \<and> handle_raw_dispatch (\<lambda>s. None) (\<lambda>t. []) ''<routing-engine><ok/><ok/>''
        \<noteq> Inr (PyStr (''<routing-engine><ok/></routing-engine>'' @ [newline] @ ''<ok/>''))"
  by code_simp

text \<open>
  C4.  A reply that does not contain \<^verbatim>\<open>routing-engine\<close> and does not hold
  \<^verbatim>\<open><rpc-reply>\<close>, later \<^verbatim>\<open></rpc-reply>\<close> and later \<^verbatim>\<open></hello\<close> has neither marker:
  the envelope pattern does not match, and the hook returns \<^verbatim>\<open>False\<close>.  No string is
  returned, so nothing is repaired.
\<close>

theorem no_marker_not_applicable:
  assumes "\<not> sublist ''routing-engine'' raw"
    and "\<not> (\<exists>a b c d. raw = a @ ''<rpc-reply>'' @ b @ ''</rpc-reply>'' @ c @ ''</hello'' @ d)"
  shows "re_search reply_pattern raw = None
         \<and> handle_raw_dispatch XML tostring raw = Inr PyFalse"
proof -
  from assms(2) have "re_search reply_pattern raw = None"
    using reply_pattern_matches [of raw] by blast
  with assms(1) show ?thesis by (simp add: handle_raw_dispatch_def)
qed

theorem no_marker_not_applicable_witness:
  "\<not> sublist ''routing-engine'' ''<rpc-reply><data/></rpc-reply>''
   \<and> \<not> (\<exists>a b c d. ''<rpc-reply><data/></rpc-reply>''
            = a @ ''<rpc-reply>'' @ b @ ''</rpc-reply>'' @ c @ ''</hello'' @ d)
   \<and> handle_raw_dispatch (\<lambda>s. None) (\<lambda>t. []) ''<rpc-reply><data/></rpc-reply>'' = Inr PyFalse"
proof -
  have a: "\<not> sublist ''routing-engine'' ''<rpc-reply><data/></rpc-reply>''" by code_simp
  have "re_search reply_pattern ''<rpc-reply><data/></rpc-reply>'' = None" by code_simp
  then have b: "\<not> (\<exists>a b c d. ''<rpc-reply><data/></rpc-reply>''
            = a @ ''<rpc-reply>'' @ b @ ''</rpc-reply>'' @ c @ ''</hello'' @ d)"
    using reply_pattern_matches [of "''<rpc-reply><data/></rpc-reply>''"] by blast
  from a b no_marker_not_applicable [OF a b] show ?thesis by blast
qed

text \<open>
  C10.  Two replies without \<^verbatim>\<open>routing-engine\<close>.  The first holds \<^verbatim>\<open><rpc-reply>\<close>, later
  \<^verbatim>\<open></rpc-reply>\<close> and later \<^verbatim>\<open></hello\<close>, and nowhere \<^verbatim>\<open><rpc-error>\<close> with a later
  \<^verbatim>\<open></rpc-error>\<close>: it matches the envelope pattern, has no fragment and falls through
  the inner \<^verbatim>\<open>if\<close>, so the hook returns \<^verbatim>\<open>None\<close>.  The second does not match the
  envelope pattern: the hook returns \<^verbatim>\<open>False\<close>.  The two results differ, whatever the
  parser and the serialiser are.
\<close>

theorem no_fragment_returns_None:
  assumes "\<not> sublist ''routing-engine'' raw"
    and "raw = a @ ''<rpc-reply>'' @ b @ ''</rpc-reply>'' @ c @ ''</hello'' @ d"
    and "\<not> (\<exists>u body v. raw = u @ ''<rpc-error>'' @ body @ ''</rpc-error>'' @ v)"
    and "\<not> sublist ''routing-engine'' raw'"
    and "\<not> (\<exists>a b c d. raw' = a @ ''<rpc-reply>'' @ b @ ''</rpc-reply>'' @ c @ ''</hello'' @ d)"
  shows "handle_raw_dispatch XML tostring raw = Inr PyNone
         \<and> handle_raw_dispatch XML tostring raw' = Inr PyFalse
         \<and> handle_raw_dispatch XML tostring raw \<noteq> handle_raw_dispatch XML tostring raw'"
proof -
  from assms(2) have "re_search reply_pattern raw \<noteq> None"
    unfolding reply_pattern_matches by (intro exI)
  moreover from assms(3) have "re_findall error_pattern raw = []"
    by (rule no_fragment_findall)
  ultimately have n: "handle_raw_dispatch XML tostring raw = Inr PyNone"
    using assms(1) by (simp add: handle_raw_dispatch_def)
  have "re_search reply_pattern raw' = None"
  proof (rule ccontr)
    assume "re_search reply_pattern raw' \<noteq> None"
    then have "\<exists>a b c d. raw' = a @ ''<rpc-reply>'' @ b @ ''</rpc-reply>'' @ c @ ''</hello'' @ d"
      by (rule iffD1 [OF reply_pattern_matches])
    with assms(5) show False by (rule notE)
  qed
  with assms(4) have f: "handle_raw_dispatch XML tostring raw' = Inr PyFalse"
    by (simp add: handle_raw_dispatch_def)
  from n f show ?thesis by simp
qed

theorem no_fragment_returns_None_witness:
  "\<not> sublist ''routing-engine'' ''<rpc-reply></rpc-reply></hello>''
   \<and> ''<rpc-reply></rpc-reply></hello>''
        = [] @ ''<rpc-reply>'' @ [] @ ''</rpc-reply>'' @ [] @ ''</hello'' @ ''>''
   \<and> \<not> (\<exists>u body v. ''<rpc-reply></rpc-reply></hello>''
            = u @ ''<rpc-error>'' @ body @ ''</rpc-error>'' @ v)
   \<and> \<not> sublist ''routing-engine'' ''<rpc-reply><ok/></rpc-reply>''
   \<and> \<not> (\<exists>a b c d. ''<rpc-reply><ok/></rpc-reply>''
            = a @ ''<rpc-reply>'' @ b @ ''</rpc-reply>'' @ c @ ''</hello'' @ d)
   \<and> handle_raw_dispatch (\<lambda>s. None) (\<lambda>t. []) ''<rpc-reply></rpc-reply></hello>'' = Inr PyNone
   \<and> handle_raw_dispatch (\<lambda>s. None) (\<lambda>t. []) ''<rpc-reply><ok/></rpc-reply>'' = Inr PyFalse
   \<and> handle_raw_dispatch (\<lambda>s. None) (\<lambda>t. []) ''<rpc-reply></rpc-reply></hello>''
        \<noteq> handle_raw_dispatch (\<lambda>s. None) (\<lambda>t. []) ''<rpc-reply><ok/></rpc-reply>''"
proof -
  have a: "\<not> sublist ''routing-engine'' ''<rpc-reply></rpc-reply></hello>''" by code_simp
  have b: "''<rpc-reply></rpc-reply></hello>''
        = [] @ ''<rpc-reply>'' @ [] @ ''</rpc-reply>'' @ [] @ ''</hello'' @ ''>''" by simp
  have "re_findall error_pattern ''<rpc-reply></rpc-reply></hello>'' = []" by code_simp
  then have c: "\<not> (\<exists>u body v. ''<rpc-reply></rpc-reply></hello>''
            = u @ ''<rpc-error>'' @ body @ ''</rpc-error>'' @ v)"
    using error_pattern_matches [of "''<rpc-reply></rpc-reply></hello>''"] by blast
  have d: "\<not> sublist ''routing-engine'' ''<rpc-reply><ok/></rpc-reply>''" by code_simp
  have "re_search reply_pattern ''<rpc-reply><ok/></rpc-reply>'' = None" by code_simp
  then have e: "\<not> (\<exists>a b c d. ''<rpc-reply><ok/></rpc-reply>''
            = a @ ''<rpc-reply>'' @ b @ ''</rpc-reply>'' @ c @ ''</hello'' @ d)"
    using reply_pattern_matches [of "''<rpc-reply><ok/></rpc-reply>''"] by blast
  from a b c d e no_fragment_returns_None [OF a b c d e] show ?thesis by blast
qed

section \<open>The raw-reply hook: error extraction\<close>





lemma err_loop_raises:
  "(\<exists>x. err_loop XML tostring acc errs = Inl x) \<longleftrightarrow>
   (\<exists>e\<in>set errs. XML e = None
      \<or> (\<exists>doc. XML e = Some doc \<and> XML (tostring (xslt_add_ns doc)) = None))"
proof (induction errs arbitrary: acc)
  case Nil
  then show ?case by simp
next
  case (Cons e errs)
  show ?case
  proof (cases "XML e")
    case None
    then show ?thesis by simp
  next
    case (Some doc)
    show ?thesis
    proof (cases "XML (tostring (xslt_add_ns doc))")
      case None
      with Some show ?thesis by simp
    next
      case (Some t)
      with \<open>XML e = Some doc\<close> Cons.IH [of "acc @ [RPCError t None]"] show ?thesis by simp
    qed
  qed
qed

lemma exn_eq: "(x :: exn) = y"
  by (cases x, cases y) simp



lemma handle_raw_dispatch_raises:
  "(\<exists>x. handle_raw_dispatch XML tostring raw = Inl x) \<longleftrightarrow>
   \<not> sublist ''routing-engine'' raw \<and> re_search reply_pattern raw \<noteq> None
   \<and> re_findall error_pattern raw \<noteq> []
   \<and> ((\<exists>y. err_loop XML tostring [] (re_findall error_pattern raw) = Inl y)
        \<or> XML (''<rpc-reply>'' @ concat (re_findall error_pattern raw) @ ''</rpc-reply>'') = None)"
  by (auto simp: handle_raw_dispatch_def Let_def exn_eq split: sum.splits option.splits)









text \<open>
  C5, as the code has it.  The hook raises exactly when the reply is without
  \<^verbatim>\<open>routing-engine\<close>, matches the envelope pattern, has a fragment, and a fragment, a
  transformed fragment or the concatenation of the fragments in \<^verbatim>\<open><rpc-reply>\<close> does
  not parse.  It returns \<^verbatim>\<open>False\<close> exactly when the reply neither contains
  \<^verbatim>\<open>routing-engine\<close> nor matches the envelope pattern, whether it is well-formed or not.
\<close>

theorem raises_only_on_unparsable_fragment:
  "((\<exists>x. handle_raw_dispatch XML tostring raw = Inl x) \<longleftrightarrow>
      \<not> sublist ''routing-engine'' raw \<and> re_search reply_pattern raw \<noteq> None
      \<and> re_findall error_pattern raw \<noteq> []
      \<and> ((\<exists>e\<in>set (re_findall error_pattern raw). XML e = None
             \<or> (\<exists>doc. XML e = Some doc \<and> XML (tostring (xslt_add_ns doc)) = None))
           \<or> XML (''<rpc-reply>'' @ concat (re_findall error_pattern raw) @ ''</rpc-reply>'')
                = None))
   \<and> (handle_raw_dispatch XML tostring raw = Inr PyFalse \<longleftrightarrow>
        \<not> sublist ''routing-engine'' raw \<and> re_search reply_pattern raw = None)"
proof
  show "(\<exists>x. handle_raw_dispatch XML tostring raw = Inl x) \<longleftrightarrow>
      \<not> sublist ''routing-engine'' raw \<and> re_search reply_pattern raw \<noteq> None
      \<and> re_findall error_pattern raw \<noteq> []
      \<and> ((\<exists>e\<in>set (re_findall error_pattern raw). XML e = None
             \<or> (\<exists>doc. XML e = Some doc \<and> XML (tostring (xslt_add_ns doc)) = None))
           \<or> XML (''<rpc-reply>'' @ concat (re_findall error_pattern raw) @ ''</rpc-reply>'')
                = None)"
    unfolding handle_raw_dispatch_raises err_loop_raises by (rule refl)
  show "handle_raw_dispatch XML tostring raw = Inr PyFalse \<longleftrightarrow>
        \<not> sublist ''routing-engine'' raw \<and> re_search reply_pattern raw = None"
    by (auto simp: handle_raw_dispatch_def Let_def split: sum.splits option.splits)
qed

theorem raises_only_on_unparsable_fragment_witness:
  "(\<exists>x. handle_raw_dispatch etree_XML etree_tostring
          ''<rpc-reply></rpc-reply></hello><rpc-error><error-tag>x</rpc-error>'' = Inl x)
   \<and> etree_XML ''<rpc-error><error-tag>x</rpc-error>'' = None
   \<and> etree_XML ''<rpc-reply><data/></rpc-reply>'' \<noteq> None
   \<and> re_search reply_pattern ''<rpc-reply><data/></rpc-reply>'' = None
   \<and> handle_raw_dispatch etree_XML etree_tostring ''<rpc-reply><data/></rpc-reply>''
       = Inr PyFalse"
proof -
  let ?raw = "''<rpc-reply></rpc-reply></hello><rpc-error><error-tag>x</rpc-error>''"
  let ?ok = "''<rpc-reply><data/></rpc-reply>''"
  have a: "\<not> sublist ''routing-engine'' ?raw" by code_simp
  have b: "re_search reply_pattern ?raw \<noteq> None" by code_simp
  have c: "re_findall error_pattern ?raw = [''<rpc-error><error-tag>x</rpc-error>'']"
    by code_simp
  have d: "etree_XML ''<rpc-error><error-tag>x</rpc-error>'' = None" by code_simp
  have e: "\<not> sublist ''routing-engine'' ?ok" by code_simp
  have f: "re_search reply_pattern ?ok = None" by code_simp
  have g: "etree_XML ?ok \<noteq> None" by code_simp
  from raises_only_on_unparsable_fragment [of etree_XML etree_tostring ?raw] a b c d
  have "\<exists>x. handle_raw_dispatch etree_XML etree_tostring ?raw = Inl x" by simp
  moreover from raises_only_on_unparsable_fragment [of etree_XML etree_tostring ?ok] e f
  have "handle_raw_dispatch etree_XML etree_tostring ?ok = Inr PyFalse" by simp
  ultimately show ?thesis using d f g by blast
qed

text \<open>
  A well-formed reply that contains \<^verbatim>\<open>routing-engine\<close> and \<^verbatim>\<open><ok/>\<close> is changed, and
  a reply with a fragment that is not well-formed makes the hook raise.
\<close>

theorem well_formed_reply_changed:
  "etree_XML ''<rpc-reply><routing-engine><name>re0</name></routing-engine><ok/></rpc-reply>''
     \<noteq> None
   \<and> handle_raw_dispatch etree_XML etree_tostring
       ''<rpc-reply><routing-engine><name>re0</name></routing-engine><ok/></rpc-reply>''
     = Inr (PyStr (''<rpc-reply><routing-engine><name>re0</name></routing-engine></routing-engine>''
                     @ [newline] @ ''<ok/></rpc-reply>''))
   \<and> handle_raw_dispatch etree_XML etree_tostring
       ''<rpc-reply><routing-engine><name>re0</name></routing-engine><ok/></rpc-reply>''
     \<noteq> Inr PyFalse
   \<and> handle_raw_dispatch etree_XML etree_tostring
       ''<rpc-reply></rpc-reply></hello><rpc-error><error-message>a < b</error-message></rpc-error>''
     = Inl XMLSyntaxError"
  by code_simp

section \<open>The schema-reply transform\<close>

lemma xpath_data_elems_Cons:
  "xpath_data_elems root = i # is \<Longrightarrow>
   \<exists>q atts ch q' atts' ch'. root = Element q atts ch \<and> q = QName (Some BASE_NS_1_0) ''rpc-reply''
      \<and> i < length ch \<and> ch ! i = Element q' atts' ch' \<and> localname q' = ''data''"
proof (cases root)
  case (Element q atts ch)
  assume a: "xpath_data_elems root = i # is"
  with Element have q: "q = QName (Some BASE_NS_1_0) ''rpc-reply''"
    and f: "filter (\<lambda>i. is_data_elem (ch ! i)) [0..<length ch] = i # is"
    by (auto split: if_splits)
  from f have "i \<in> set (filter (\<lambda>i. is_data_elem (ch ! i)) [0..<length ch])" by simp
  then have i: "i < length ch" "is_data_elem (ch ! i)" by auto
  then obtain q' atts' ch' where "ch ! i = Element q' atts' ch'" "localname q' = ''data''"
    by (cases "ch ! i") auto
  with Element q i show ?thesis by blast
qed auto

lemma xpath_data_elems_update:
  assumes "i < length ch" "is_data_elem n = is_data_elem (ch ! i)"
  shows "xpath_data_elems (Element q atts (ch[i := n])) = xpath_data_elems (Element q atts ch)"
proof -
  have "filter (\<lambda>j. is_data_elem (ch[i := n] ! j)) [0..<length ch]
      = filter (\<lambda>j. is_data_elem (ch ! j)) [0..<length ch]"
    by (rule filter_cong) (use assms in \<open>auto simp: nth_list_update\<close>)
  then show ?thesis by simp
qed

lemma monitoring_neq_base: "NETCONF_MONITORING_NS \<noteq> BASE_NS_1_0"
  by (simp add: NETCONF_MONITORING_NS_def BASE_NS_1_0_def)

lemma replace_namespace_ok: "replaces_namespace replace_namespace"
  by (simp add: replaces_namespace_def)

text \<open>
  C6.  \<^verbatim>\<open>fix_get_schema_reply\<close> is idempotent on the document: a second call leaves
  the tree as the first call left it.
\<close>

theorem fix_get_schema_reply_idempotent:
  assumes "replaces_namespace rn"
  shows "fst (fix_get_schema_reply rn (fst (fix_get_schema_reply rn root)))
           = fst (fix_get_schema_reply rn root)"
proof (cases "length (xpath_data_elems root) = 1")
  case False
  then show ?thesis by (simp add: fix_get_schema_reply_def)
next
  case True
  then obtain i where i: "xpath_data_elems root = [i]"
    by (cases "xpath_data_elems root") auto
  from xpath_data_elems_Cons [OF i] obtain q atts ch q' atts' ch' where
    r: "root = Element q atts ch" "i < length ch" "ch ! i = Element q' atts' ch'"
       "localname q' = ''data''" by blast
  from assms obtain a c where
    rn: "rn (Element q' atts' ch') (namespace q') NETCONF_MONITORING_NS
           = Element (QName (Some NETCONF_MONITORING_NS) ''data'') a c"
    unfolding replaces_namespace_def using r(4) by metis
  let ?new = "Element (QName (Some NETCONF_MONITORING_NS) ''data'') a c"
  let ?root' = "Element q atts (ch[i := ?new])"
  have fixed: "fix_get_schema_reply rn ?root' = (?root', [])"
  proof -
    have "xpath_data_elems ?root' = [i]"
      using xpath_data_elems_update [of i ch ?new q atts] r i by simp
    then show ?thesis
      using r(2) monitoring_neq_base by (simp add: fix_get_schema_reply_def Let_def)
  qed
  consider "namespace q' = Some BASE_NS_1_0" | "namespace q' = None"
    | n where "namespace q' = Some n" "n \<noteq> BASE_NS_1_0"
    by (cases "namespace q'") auto
  then show ?thesis
  proof cases
    case 1
    with i r rn have "fix_get_schema_reply rn root = (?root', [rfc_warning])"
      by (simp add: fix_get_schema_reply_def Let_def)
    with fixed show ?thesis by simp
  next
    case 2
    with i r rn have "fix_get_schema_reply rn root = (?root', [])"
      by (simp add: fix_get_schema_reply_def Let_def)
    with fixed show ?thesis by simp
  next
    case 3
    with i r have "fix_get_schema_reply rn root = (root, [])"
      by (simp add: fix_get_schema_reply_def Let_def)
    then show ?thesis by simp
  qed
qed

theorem fix_get_schema_reply_idempotent_witness:
  "replaces_namespace replace_namespace
   \<and> fst (fix_get_schema_reply replace_namespace
        (Element (QName (Some BASE_NS_1_0) ''rpc-reply'') []
           [Element (QName (Some BASE_NS_1_0) ''data'') [] [Text ''module m'']]))
     = Element (QName (Some BASE_NS_1_0) ''rpc-reply'') []
         [Element (QName (Some NETCONF_MONITORING_NS) ''data'') [] [Text ''module m'']]
   \<and> fst (fix_get_schema_reply replace_namespace (fst (fix_get_schema_reply replace_namespace
        (Element (QName (Some BASE_NS_1_0) ''rpc-reply'') []
           [Element (QName (Some BASE_NS_1_0) ''data'') [] [Text ''module m'']]))))
     = Element (QName (Some BASE_NS_1_0) ''rpc-reply'') []
         [Element (QName (Some NETCONF_MONITORING_NS) ''data'') [] [Text ''module m'']]"
proof -
  have a: "fst (fix_get_schema_reply replace_namespace
        (Element (QName (Some BASE_NS_1_0) ''rpc-reply'') []
           [Element (QName (Some BASE_NS_1_0) ''data'') [] [Text ''module m'']]))
     = Element (QName (Some BASE_NS_1_0) ''rpc-reply'') []
         [Element (QName (Some NETCONF_MONITORING_NS) ''data'') [] [Text ''module m'']]"
    by (simp add: fix_get_schema_reply_def)
  from a replace_namespace_ok
    fix_get_schema_reply_idempotent [OF replace_namespace_ok,
      of "Element (QName (Some BASE_NS_1_0) ''rpc-reply'') []
           [Element (QName (Some BASE_NS_1_0) ''data'') [] [Text ''module m'']]"]
  show ?thesis by simp
qed

text \<open>
  C7.  The document is unchanged, and nothing is logged, when the lookup of the data
  element finds no element or more than one, and when the one element found has a
  namespace other than the base namespace.
\<close>

theorem fix_get_schema_reply_unchanged:
  "(length (xpath_data_elems root) \<noteq> 1 \<longrightarrow> fix_get_schema_reply rn root = (root, []))
   \<and> (\<forall>i n. xpath_data_elems root = [i] \<and> qname_namespace (child root i) = Some n
          \<and> n \<noteq> BASE_NS_1_0 \<longrightarrow> fix_get_schema_reply rn root = (root, []))"
  by (auto simp: fix_get_schema_reply_def Let_def)

theorem fix_get_schema_reply_unchanged_witness:
  "length (xpath_data_elems (Element (QName (Some BASE_NS_1_0) ''rpc-reply'') []
      [Element (QName None ''data'') [] [], Element (QName None ''data'') [] []])) = 2
   \<and> fix_get_schema_reply replace_namespace (Element (QName (Some BASE_NS_1_0) ''rpc-reply'') []
      [Element (QName None ''data'') [] [], Element (QName None ''data'') [] []])
     = (Element (QName (Some BASE_NS_1_0) ''rpc-reply'') []
      [Element (QName None ''data'') [] [], Element (QName None ''data'') [] []], [])
   \<and> xpath_data_elems (Element (QName (Some BASE_NS_1_0) ''rpc-reply'') []
      [Element (QName (Some NETCONF_MONITORING_NS) ''data'') [] []]) = [0]
   \<and> qname_namespace (child (Element (QName (Some BASE_NS_1_0) ''rpc-reply'') []
      [Element (QName (Some NETCONF_MONITORING_NS) ''data'') [] []]) 0) = Some NETCONF_MONITORING_NS
   \<and> NETCONF_MONITORING_NS \<noteq> BASE_NS_1_0
   \<and> fix_get_schema_reply replace_namespace (Element (QName (Some BASE_NS_1_0) ''rpc-reply'') []
      [Element (QName (Some NETCONF_MONITORING_NS) ''data'') [] []])
     = (Element (QName (Some BASE_NS_1_0) ''rpc-reply'') []
      [Element (QName (Some NETCONF_MONITORING_NS) ''data'') [] []], [])"
proof -
  let ?two = "Element (QName (Some BASE_NS_1_0) ''rpc-reply'') []
      [Element (QName None ''data'') [] [], Element (QName None ''data'') [] []]"
  let ?mon = "Element (QName (Some BASE_NS_1_0) ''rpc-reply'') []
      [Element (QName (Some NETCONF_MONITORING_NS) ''data'') [] []]"
  have a: "length (xpath_data_elems ?two) = 2" by (simp add: upt_rec)
  have b: "xpath_data_elems ?mon = [0]" by (simp add: upt_rec)
  have c: "qname_namespace (child ?mon 0) = Some NETCONF_MONITORING_NS" by simp
  from a have "fix_get_schema_reply replace_namespace ?two = (?two, [])"
    using fix_get_schema_reply_unchanged [of ?two replace_namespace] by simp
  moreover from b c monitoring_neq_base
  have "fix_get_schema_reply replace_namespace ?mon = (?mon, [])"
    using fix_get_schema_reply_unchanged [of ?mon replace_namespace] by blast
  ultimately show ?thesis using a b c monitoring_neq_base by blast
qed

text \<open>
  C8.  When the one data element is in the base namespace, it is replaced, where it
  stands, by what \<^verbatim>\<open>replace_namespace\<close> makes of it, an element \<^verbatim>\<open>data\<close> in the
  monitoring namespace, and one warning is logged; when it has no namespace, it is
  replaced in the same way and nothing is logged.  The other children of the root stay
  as they are.
\<close>

theorem fix_get_schema_reply_rewrites:
  assumes "replaces_namespace rn" and "xpath_data_elems root = [i]"
  shows "(qname_namespace (child root i) = Some BASE_NS_1_0 \<longrightarrow>
            fix_get_schema_reply rn root =
              (set_child root i (rn (child root i) (Some BASE_NS_1_0) NETCONF_MONITORING_NS),
               [rfc_warning])
            \<and> (\<exists>atts ch. rn (child root i) (Some BASE_NS_1_0) NETCONF_MONITORING_NS
                  = Element (QName (Some NETCONF_MONITORING_NS) ''data'') atts ch))
       \<and> (qname_namespace (child root i) = None \<longrightarrow>
            fix_get_schema_reply rn root =
              (set_child root i (rn (child root i) None NETCONF_MONITORING_NS), [])
            \<and> (\<exists>atts ch. rn (child root i) None NETCONF_MONITORING_NS
                  = Element (QName (Some NETCONF_MONITORING_NS) ''data'') atts ch))"
proof -
  from xpath_data_elems_Cons [OF assms(2)] obtain q atts ch q' atts' ch' where
    r: "root = Element q atts ch" "i < length ch" "ch ! i = Element q' atts' ch'"
       "localname q' = ''data''" by blast
  from assms(1) obtain a c where
    rn: "rn (Element q' atts' ch') (namespace q') NETCONF_MONITORING_NS
           = Element (QName (Some NETCONF_MONITORING_NS) (localname q')) a c"
    unfolding replaces_namespace_def by blast
  have c: "child root i = Element q' atts' ch'" using r(1,2,3) by simp
  have q: "qname_namespace (child root i) = namespace q'" unfolding c by simp
  have fix_base: "qname_namespace (child root i) = Some BASE_NS_1_0 \<Longrightarrow>
      fix_get_schema_reply rn root =
        (set_child root i (rn (child root i) (Some BASE_NS_1_0) NETCONF_MONITORING_NS),
         [rfc_warning])"
    using assms(2) by (simp add: fix_get_schema_reply_def Let_def)
  have fix_none: "qname_namespace (child root i) = None \<Longrightarrow>
      fix_get_schema_reply rn root =
        (set_child root i (rn (child root i) None NETCONF_MONITORING_NS), [])"
    using assms(2) by (simp add: fix_get_schema_reply_def Let_def)
  have el: "\<exists>atts ch. rn (child root i) (namespace q') NETCONF_MONITORING_NS
                  = Element (QName (Some NETCONF_MONITORING_NS) ''data'') atts ch"
    unfolding c using rn r(4) by simp
  show ?thesis
  proof (intro conjI impI)
    assume b: "qname_namespace (child root i) = Some BASE_NS_1_0"
    from fix_base [OF b]
    show "fix_get_schema_reply rn root =
        (set_child root i (rn (child root i) (Some BASE_NS_1_0) NETCONF_MONITORING_NS),
         [rfc_warning])" .
    from b q have "namespace q' = Some BASE_NS_1_0" by simp
    with el show "\<exists>atts ch. rn (child root i) (Some BASE_NS_1_0) NETCONF_MONITORING_NS
                  = Element (QName (Some NETCONF_MONITORING_NS) ''data'') atts ch"
      by simp
  next
    assume n: "qname_namespace (child root i) = None"
    from fix_none [OF n]
    show "fix_get_schema_reply rn root =
        (set_child root i (rn (child root i) None NETCONF_MONITORING_NS), [])" .
    from n q have "namespace q' = None" by simp
    with el show "\<exists>atts ch. rn (child root i) None NETCONF_MONITORING_NS
                  = Element (QName (Some NETCONF_MONITORING_NS) ''data'') atts ch"
      by simp
  qed
qed

theorem fix_get_schema_reply_rewrites_witness:
  "replaces_namespace replace_namespace
   \<and> xpath_data_elems (Element (QName (Some BASE_NS_1_0) ''rpc-reply'') [(QName None ''message-id'', ''1'')]
        [Text ''x'',
         Element (QName (Some BASE_NS_1_0) ''data'') [(QName None ''format'', ''yang'')]
           [Text ''module m'']]) = [1]
   \<and> qname_namespace (child (Element (QName (Some BASE_NS_1_0) ''rpc-reply'') [(QName None ''message-id'', ''1'')]
        [Text ''x'',
         Element (QName (Some BASE_NS_1_0) ''data'') [(QName None ''format'', ''yang'')]
           [Text ''module m'']]) 1) = Some BASE_NS_1_0
   \<and> fix_get_schema_reply replace_namespace
        (Element (QName (Some BASE_NS_1_0) ''rpc-reply'') [(QName None ''message-id'', ''1'')]
          [Text ''x'',
           Element (QName (Some BASE_NS_1_0) ''data'') [(QName None ''format'', ''yang'')]
             [Text ''module m'']])
       = (Element (QName (Some BASE_NS_1_0) ''rpc-reply'') [(QName None ''message-id'', ''1'')]
          [Text ''x'',
           Element (QName (Some NETCONF_MONITORING_NS) ''data'') [(QName None ''format'', ''yang'')]
             [Text ''module m'']], [rfc_warning])
   \<and> xpath_data_elems (Element (QName (Some BASE_NS_1_0) ''rpc-reply'') []
        [Element (QName None ''data'') [(QName None ''format'', ''yang'')]
           [Text ''module m'']]) = [0]
   \<and> qname_namespace (child (Element (QName (Some BASE_NS_1_0) ''rpc-reply'') []
        [Element (QName None ''data'') [(QName None ''format'', ''yang'')]
           [Text ''module m'']]) 0) = None
   \<and> fix_get_schema_reply replace_namespace
        (Element (QName (Some BASE_NS_1_0) ''rpc-reply'') []
          [Element (QName None ''data'') [(QName None ''format'', ''yang'')]
             [Text ''module m'']])
       = (Element (QName (Some BASE_NS_1_0) ''rpc-reply'') []
          [Element (QName (Some NETCONF_MONITORING_NS) ''data'') [(QName None ''format'', ''yang'')]
             [Text ''module m'']], [])"
proof -
  let ?b = "Element (QName (Some BASE_NS_1_0) ''rpc-reply'') [(QName None ''message-id'', ''1'')]
        [Text ''x'',
         Element (QName (Some BASE_NS_1_0) ''data'') [(QName None ''format'', ''yang'')]
           [Text ''module m'']]"
  let ?n = "Element (QName (Some BASE_NS_1_0) ''rpc-reply'') []
        [Element (QName None ''data'') [(QName None ''format'', ''yang'')]
           [Text ''module m'']]"
  have b: "xpath_data_elems ?b = [1]" "qname_namespace (child ?b 1) = Some BASE_NS_1_0"
    by (simp_all add: upt_rec)
  have n: "xpath_data_elems ?n = [0]" "qname_namespace (child ?n 0) = None"
    by (simp_all add: upt_rec)
  from fix_get_schema_reply_rewrites [OF replace_namespace_ok b(1)] b(2)
  have "fix_get_schema_reply replace_namespace ?b
       = (set_child ?b 1 (replace_namespace (child ?b 1) (Some BASE_NS_1_0) NETCONF_MONITORING_NS),
          [rfc_warning])" by blast
  then have rb: "fix_get_schema_reply replace_namespace ?b
       = (Element (QName (Some BASE_NS_1_0) ''rpc-reply'') [(QName None ''message-id'', ''1'')]
          [Text ''x'',
           Element (QName (Some NETCONF_MONITORING_NS) ''data'') [(QName None ''format'', ''yang'')]
             [Text ''module m'']], [rfc_warning])"
    by simp
  from fix_get_schema_reply_rewrites [OF replace_namespace_ok n(1)] n(2)
  have "fix_get_schema_reply replace_namespace ?n
       = (set_child ?n 0 (replace_namespace (child ?n 0) None NETCONF_MONITORING_NS), [])"
    by blast
  then have rn: "fix_get_schema_reply replace_namespace ?n
       = (Element (QName (Some BASE_NS_1_0) ''rpc-reply'') []
          [Element (QName (Some NETCONF_MONITORING_NS) ''data'') [(QName None ''format'', ''yang'')]
             [Text ''module m'']], [])"
    by simp
  from replace_namespace_ok b n rb rn show ?thesis by (intro conjI)
qed

section \<open>The parser selection\<close>

lemma find_eq: "find (\<lambda>l. l = x) xs = (if x \<in> set xs then Some x else None)"
  by (induction xs) auto

lemma count_list_remove1: "x \<in> set xs \<Longrightarrow> count_list (remove1 x xs) x = count_list xs x - 1"
  by (induction xs) auto

lemma filter_neq_remove1: "filter (\<lambda>l. l \<noteq> x) (remove1 x xs) = filter (\<lambda>l. l \<noteq> x) xs"
  by (induction xs) auto

lemma get_xml_parser_listeners:
  assumes "device_params ''use_filter'' = Some True"
  shows "listeners (snd (get_xml_parser device_params s))
           = remove1 SAXParserHandler (listeners s) @ [SAXParserHandler]"
  using assms
  by (simp add: get_xml_parser_def get_listener_instance_def remove_listener_def
      add_listener_def find_eq remove1_idem)

lemma get_xml_parser_count:
  assumes "device_params ''use_filter'' = Some True"
  shows "count_list (listeners (snd (get_xml_parser device_params s))) SAXParserHandler
           = max 1 (count_list (listeners s) SAXParserHandler)"
proof (cases "SAXParserHandler \<in> set (listeners s)")
  case True
  then have "0 < count_list (listeners s) SAXParserHandler"
    using count_list_0_iff [of "listeners s" SAXParserHandler] by auto
  with True show ?thesis
    by (simp add: get_xml_parser_listeners [of device_params, OF assms] count_list_remove1)
next
  case False
  then show ?thesis
    by (simp add: get_xml_parser_listeners [of device_params, OF assms] remove1_idem count_list_0_iff)
qed

text \<open>
  C9, as the code has it.  Without a true \<^verbatim>\<open>use_filter\<close> the whole-document parser is
  returned and the session is untouched.  With it, whatever the session, the streaming
  parser is returned, the first attached \<^verbatim>\<open>SAXParserHandler\<close>, if there is one, is
  removed and a new one is attached behind the others; the other listeners stay, and
  the number of attached \<^verbatim>\<open>SAXParserHandler\<close> is afterwards the number before, or one
  when there was none.  So a session that had at most one attached has exactly one
  afterwards, and a second selection on that session changes nothing more.
\<close>

theorem get_xml_parser_one_listener:
  "(device_params ''use_filter'' \<noteq> Some True \<longrightarrow>
      get_xml_parser device_params s = (DefaultXMLParser, s))
   \<and> (device_params ''use_filter'' = Some True \<longrightarrow>
      get_xml_parser device_params s
        = (JunosXMLParser,
           s\<lparr>listeners := remove1 SAXParserHandler (listeners s) @ [SAXParserHandler]\<rparr>)
      \<and> count_list (listeners (snd (get_xml_parser device_params s))) SAXParserHandler
          = max 1 (count_list (listeners s) SAXParserHandler)
      \<and> filter (\<lambda>l. l \<noteq> SAXParserHandler) (listeners (snd (get_xml_parser device_params s)))
          = filter (\<lambda>l. l \<noteq> SAXParserHandler) (listeners s)
      \<and> (count_list (listeners s) SAXParserHandler \<le> 1 \<longrightarrow>
           count_list (listeners (snd (get_xml_parser device_params s))) SAXParserHandler = 1
           \<and> get_xml_parser device_params (snd (get_xml_parser device_params s))
               = get_xml_parser device_params s))"
proof (intro conjI impI)
  assume "device_params ''use_filter'' \<noteq> Some True"
  then show "get_xml_parser device_params s = (DefaultXMLParser, s)"
    by (cases "device_params ''use_filter''") (auto simp: get_xml_parser_def)
next
  assume uf: "device_params ''use_filter'' = Some True"
  show "get_xml_parser device_params s
        = (JunosXMLParser,
           s\<lparr>listeners := remove1 SAXParserHandler (listeners s) @ [SAXParserHandler]\<rparr>)"
    using uf
    by (simp add: get_xml_parser_def get_listener_instance_def remove_listener_def
        add_listener_def find_eq remove1_idem)
  show "count_list (listeners (snd (get_xml_parser device_params s))) SAXParserHandler
          = max 1 (count_list (listeners s) SAXParserHandler)"
    by (rule get_xml_parser_count [of device_params, OF uf])
  show "filter (\<lambda>l. l \<noteq> SAXParserHandler) (listeners (snd (get_xml_parser device_params s)))
          = filter (\<lambda>l. l \<noteq> SAXParserHandler) (listeners s)"
    by (simp add: get_xml_parser_listeners [of device_params, OF uf] filter_neq_remove1)
next
  assume uf: "device_params ''use_filter'' = Some True"
    and le: "count_list (listeners s) SAXParserHandler \<le> 1"
  show "count_list (listeners (snd (get_xml_parser device_params s))) SAXParserHandler = 1"
    using le by (simp add: get_xml_parser_count [of device_params, OF uf])
next
  assume uf: "device_params ''use_filter'' = Some True"
    and le: "count_list (listeners s) SAXParserHandler \<le> 1"
  have none: "SAXParserHandler \<notin> set (remove1 SAXParserHandler (listeners s))"
  proof (cases "SAXParserHandler \<in> set (listeners s)")
    case True
    with le have "count_list (remove1 SAXParserHandler (listeners s)) SAXParserHandler = 0"
      by (simp add: count_list_remove1)
    then show ?thesis
      using count_list_0_iff [of "remove1 SAXParserHandler (listeners s)" SAXParserHandler]
      by blast
  next
    case False
    then show ?thesis by (simp add: remove1_idem)
  qed
  have "listeners (snd (get_xml_parser device_params (snd (get_xml_parser device_params s))))
          = listeners (snd (get_xml_parser device_params s))"
    using none by (simp add: get_xml_parser_listeners [of device_params, OF uf] remove1_append remove1_idem)
  moreover have "fst (get_xml_parser device_params (snd (get_xml_parser device_params s)))
          = fst (get_xml_parser device_params s)"
    using uf by (simp add: get_xml_parser_def)
  moreover have "session.more (snd (get_xml_parser device_params (snd (get_xml_parser device_params s))))
          = session.more (snd (get_xml_parser device_params s))"
    using uf
    by (simp add: get_xml_parser_def get_listener_instance_def remove_listener_def
        add_listener_def find_eq)
  ultimately show "get_xml_parser device_params (snd (get_xml_parser device_params s))
          = get_xml_parser device_params s"
    by (simp add: prod_eq_iff)
qed

theorem get_xml_parser_one_listener_witness:
  "get_xml_parser Map.empty \<lparr>listeners = [OtherListener ''HelloHandler'']\<rparr>
     = (DefaultXMLParser, \<lparr>listeners = [OtherListener ''HelloHandler'']\<rparr>)
   \<and> count_list [SAXParserHandler, OtherListener ''HelloHandler''] SAXParserHandler \<le> 1
   \<and> get_xml_parser [''use_filter'' \<mapsto> True]
        \<lparr>listeners = [SAXParserHandler, OtherListener ''HelloHandler'']\<rparr>
      = (JunosXMLParser, \<lparr>listeners = [OtherListener ''HelloHandler'', SAXParserHandler]\<rparr>)
   \<and> count_list (listeners (snd (get_xml_parser [''use_filter'' \<mapsto> True]
        \<lparr>listeners = [SAXParserHandler, OtherListener ''HelloHandler'']\<rparr>))) SAXParserHandler = 1
   \<and> get_xml_parser [''use_filter'' \<mapsto> True]
        \<lparr>listeners = [OtherListener ''HelloHandler'', SAXParserHandler]\<rparr>
      = (JunosXMLParser, \<lparr>listeners = [OtherListener ''HelloHandler'', SAXParserHandler]\<rparr>)
   \<and> get_xml_parser [''use_filter'' \<mapsto> True]
        \<lparr>listeners = [SAXParserHandler, OtherListener ''HelloHandler'', SAXParserHandler]\<rparr>
      = (JunosXMLParser,
         \<lparr>listeners = [OtherListener ''HelloHandler'', SAXParserHandler, SAXParserHandler]\<rparr>)"
  using get_xml_parser_one_listener [of Map.empty "\<lparr>listeners = [OtherListener ''HelloHandler'']\<rparr>"]
    get_xml_parser_one_listener [of "[''use_filter'' \<mapsto> True]"
      "\<lparr>listeners = [SAXParserHandler, OtherListener ''HelloHandler'']\<rparr>"]
    get_xml_parser_one_listener [of "[''use_filter'' \<mapsto> True]"
      "\<lparr>listeners = [OtherListener ''HelloHandler'', SAXParserHandler]\<rparr>"]
    get_xml_parser_one_listener [of "[''use_filter'' \<mapsto> True]"
      "\<lparr>listeners = [SAXParserHandler, OtherListener ''HelloHandler'', SAXParserHandler]\<rparr>"]
  by simp

text \<open>
  One attached handler is removed, not all of them: a session with two handlers has two
  after the selection.
\<close>

theorem two_handlers_stay_two:
  "count_list (listeners (snd (get_xml_parser [''use_filter'' \<mapsto> True]
      \<lparr>listeners = [SAXParserHandler, SAXParserHandler]\<rparr>))) SAXParserHandler = 2"
  by (simp add: get_xml_parser_def get_listener_instance_def remove_listener_def
      add_listener_def)

end
